theory Spec2Isabelle
  imports Main
begin

section \<open>myCron: a minute-granularity task scheduler (src/myCron.ts)\<close>

text \<open>
  Modelling conventions.
  \<^item> A JavaScript number that holds an integer is an \<open>int\<close>. The numbers of the source
    are doubles, exact on the integers below \<open>2^53\<close>. Every number of this program is a
    time component, a counter or the value of a digit string compared with bounds of at
    most 2099, so at every call of the program the model and the doubles agree; a
    statement about \<open>parseTimeExpression\<close> whose result depends on values up to a free
    upper bound assumes that bound below \<open>2^53\<close>.
  \<^item> A string is a \<open>char list\<close>; a \<open>char\<close> stands for a code unit below 256.
  \<^item> \<open>throw\<close> is the left summand of a sum type, \<open>null\<close> is \<open>None\<close>.
  \<^item> The task objects live in a store (\<open>objs\<close>, addressed by position); the registry
    \<open>tasks\<close> is a list of addresses, because a dispatched execution keeps a reference
    to its task object also after the task has left the registry.
  \<^item> A callback is opaque: it is modelled by what one invocation does to the scheduler
    (returns, returns a promise, throws). Console output is not modelled.
\<close>

subsection \<open>Data\<close>

record error =
  err_name :: string
  message :: string

record Date =
  getFullYear :: int
  getMonth :: int
  getDate :: int
  getDay :: int
  getHours :: int
  getMinutes :: int
  getSeconds :: int

datatype settled = Fulfilled | Rejected

datatype outcome = Returns | ReturnsPromise settled | Throws

record Task =
  task_name :: string
  task_expression :: string
  task_callBack :: outcome
  task_comment :: "string option"
  task_maxRuns :: "int option"

record TaskInfo =
  name :: string
  expression :: string
  comment :: string
  lastRun :: "Date option"
  countRuns :: int
  maxRuns :: "int option"

record StoredTask = TaskInfo +
  callBack :: outcome
  min_f :: "int list"
  hour :: "int list"
  day :: "int list"
  month :: "int list"
  weekday :: "int list"
  year :: "int list option"

record timer =
  delay :: int
  cleared :: bool

record cron =
  objs :: "StoredTask list"
  tasks :: "nat list"
  runner :: "timer option"

definition init :: cron where
  "init = \<lparr>objs = [], tasks = [], runner = None\<rparr>"

subsection \<open>Strings and the regular expressions of the parser\<close>

definition is_digit :: "char \<Rightarrow> bool" where
  "is_digit c = (48 \<le> (of_char c :: nat) \<and> (of_char c :: nat) \<le> 57)"

definition digit_val :: "char \<Rightarrow> int" where
  "digit_val c = int (of_char c) - 48"

text \<open>\<open>parseInt(s, 10)\<close>: the value of the leading decimal digits. The source calls it
  only on strings that matched \<open>[0-9]+\<close>, so the NaN of an empty prefix never arises.
  The value is exact; the double of the source is the same below \<open>2^53\<close> and rounded
  from there on.\<close>

definition parseInt :: "string \<Rightarrow> int" where
  "parseInt s = fold (\<lambda>c n. 10 * n + digit_val c) (takeWhile is_digit s) 0"

text \<open>\<open>s.split(c)\<close> for a one-character separator: never empty, \<open>''''.split(c) = ['''']\<close>.\<close>

definition cons_first :: "char \<Rightarrow> string list \<Rightarrow> string list" where
  "cons_first x ps = (x # hd ps) # tl ps"

fun split_on :: "char \<Rightarrow> string \<Rightarrow> string list" where
  "split_on c [] = [[]]"
| "split_on c (x # xs) =
     (if x = c then [] # split_on c xs else cons_first x (split_on c xs))"

text \<open>\<open>/^[0-9]+$/\<close>\<close>

definition re_number :: "string \<Rightarrow> bool" where
  "re_number s = (s \<noteq> [] \<and> list_all is_digit s)"

text \<open>\<open>/^[0-9]+-[0-9]+$/\<close>\<close>

definition re_range :: "string \<Rightarrow> bool" where
  "re_range s =
     (case dropWhile is_digit s of
        [] \<Rightarrow> False
      | c # b \<Rightarrow> takeWhile is_digit s \<noteq> [] \<and> c = CHR ''-'' \<and> re_number b)"

text \<open>\<open>/^[0-9-]+(,([0-9-]+))+$/\<close>: two or more comma-separated, non-empty pieces of
  digits and hyphens.\<close>

definition re_list :: "string \<Rightarrow> bool" where
  "re_list s =
     (let ps = split_on CHR '','' s
      in 2 \<le> length ps \<and>
         list_all (\<lambda>p. p \<noteq> [] \<and> list_all (\<lambda>c. is_digit c \<or> c = CHR ''-'') p) ps)"

text \<open>\<open>replace(/ +/g, ' ')\<close>: every run of spaces becomes one space.\<close>

fun collapse_spaces :: "string \<Rightarrow> string" where
  "collapse_spaces (c # d # cs) =
     (if c = CHR '' '' \<and> d = CHR '' '' then collapse_spaces (d # cs)
      else c # collapse_spaces (d # cs))"
| "collapse_spaces cs = cs"

text \<open>The white space that \<open>trim()\<close> removes, among the code units below 256:
  tab, line feed, vertical tab, form feed, carriage return, space, no-break space.\<close>

definition is_white :: "char \<Rightarrow> bool" where
  "is_white c = ((9 \<le> (of_char c :: nat) \<and> (of_char c :: nat) \<le> 13)
                 \<or> (of_char c :: nat) = 32 \<or> (of_char c :: nat) = 160)"

definition trim :: "string \<Rightarrow> string" where
  "trim s = rev (dropWhile is_white (rev (dropWhile is_white s)))"



subsection \<open>parseTimeExpression\<close>

text \<open>\<open>[...new Set(retVal)]\<close>: the first occurrence of every value, in insertion order.\<close>

definition dedupe :: "int list \<Rightarrow> int list" where
  "dedupe xs = fold (\<lambda>x acc. if x \<in> set acc then acc else acc @ [x]) xs []"

text \<open>The callback of \<open>arr.every\<close> in the list branch, run over the results of the
  recursive calls: a thrown error and \<open>null\<close> both give \<open>false\<close> and stop the iteration,
  a result is appended to \<open>retVal\<close>.\<close>

fun every_collect :: "(error + int list option) list \<Rightarrow> int list \<Rightarrow> int list \<times> bool" where
  "every_collect [] retVal = (retVal, True)"
| "every_collect (r # rs) retVal =
     (case r of
        Inl e \<Rightarrow> (retVal, False)
      | Inr None \<Rightarrow> (retVal, False)
      | Inr (Some vs) \<Rightarrow> every_collect rs (retVal @ vs))"

lemma split_on_ne: "split_on c s \<noteq> []"
  by (induction s) (auto simp: cons_first_def)

lemma split_on_length_le: "v \<in> set (split_on c s) \<Longrightarrow> length v \<le> length s"
proof (induction s arbitrary: v)
  case Nil
  then show ?case by simp
next
  case (Cons x xs)
  obtain p ps where ps: "split_on c xs = p # ps"
    using split_on_ne by (cases "split_on c xs") auto
  with Cons show ?case by (fastforce simp: cons_first_def split: if_splits)
qed

lemma split_on_length_less:
  "c \<in> set s \<Longrightarrow> v \<in> set (split_on c s) \<Longrightarrow> length v < length s"
proof (induction s arbitrary: v)
  case Nil
  then show ?case by simp
next
  case (Cons x xs)
  obtain p ps where ps: "split_on c xs = p # ps"
    using split_on_ne by (cases "split_on c xs") auto
  show ?case
  proof (cases "x = c")
    case True
    with Cons.prems have "v = [] \<or> v \<in> set (split_on c xs)" by auto
    then show ?thesis using split_on_length_le[of v c xs] by auto
  next
    case False
    with Cons.prems have cin: "c \<in> set xs" by auto
    from False Cons.prems ps have "v = x # p \<or> v \<in> set ps" by (auto simp: cons_first_def)
    then show ?thesis using Cons.IH[OF cin, of p] Cons.IH[OF cin, of v] ps by auto
  qed
qed

lemma split_on_single: "c \<notin> set s \<Longrightarrow> split_on c s = [s]"
  by (induction s) (auto simp: cons_first_def)

lemma re_list_has_comma: "re_list s \<Longrightarrow> CHR '','' \<in> set s"
  unfolding re_list_def Let_def using split_on_single[of "CHR '',''" s] by fastforce

text \<open>\<open>new Error(`Invalid expression: ${timeExpression}`)\<close>\<close>

definition parse_error :: "string \<Rightarrow> error" where
  "parse_error te = \<lparr>err_name = ''Error'', message = ''Invalid expression: '' @ te\<rparr>"

text \<open>The pairs \<open>s0 \<dots> s4\<close> are the values of \<open>(retVal, ok)\<close> after each of the four
  \<open>if\<close> statements of the source; \<open>minv\<close> and \<open>maxv\<close> are its parameters \<open>min\<close> and
  \<open>max\<close>. The loops \<open>for (i = a; i <= b; i++) retVal.push(i)\<close> append \<open>[a..b]\<close>.\<close>

function parseTimeExpression :: "string \<Rightarrow> int \<Rightarrow> int \<Rightarrow> error + int list option" where
  "parseTimeExpression timeExpression minv maxv =
     (let s0 = ([] :: int list, False);
          s1 = (if timeExpression = ''*'' then (fst s0 @ [minv..maxv], True) else s0);
          s2 = (if \<not> snd s1 \<and> re_number timeExpression
                then (let val = parseInt timeExpression
                      in if val \<ge> minv \<and> val \<le> maxv then (fst s1 @ [val], True) else s1)
                else s1);
          s3 = (if \<not> snd s2 \<and> re_range timeExpression
                then (let arr = split_on CHR ''-'' timeExpression;
                          mn = parseInt (arr ! 0);
                          mx = parseInt (arr ! 1)
                      in if mn \<ge> minv \<and> mx \<le> maxv \<and> mx > mn
                         then (fst s2 @ [mn..mx], True) else s2)
                else s2);
          s4 = (if \<not> snd s3 \<and> re_list timeExpression
                then every_collect
                       (map (\<lambda>v. parseTimeExpression v minv maxv)
                            (split_on CHR '','' timeExpression))
                       (fst s3)
                else s3)
      in if snd s4 then Inr (Some (sort (dedupe (fst s4))))
         else Inl (parse_error timeExpression))"
  by pat_completeness auto
termination
  apply (relation "measure (\<lambda>(s, mn, mx). length s)")
   apply simp
  apply (auto dest!: re_list_has_comma split_on_length_less)
  done

declare parseTimeExpression.simps [simp del]

subsection \<open>existsInArray\<close>

text \<open>\<open>arr[i]\<close>: \<open>undefined\<close> outside the array.\<close>

definition at :: "int list \<Rightarrow> int \<Rightarrow> int option" where
  "at arr i = (if 0 \<le> i \<and> i < int (length arr) then Some (arr ! nat i) else None)"

text \<open>The \<open>while\<close> loop of the binary search. With \<open>arr[midIdx]\<close> undefined,
  \<open>testResult\<close> is NaN, all three comparisons are false and the loop breaks.\<close>

function search_loop :: "int list \<Rightarrow> int \<Rightarrow> int \<Rightarrow> int \<Rightarrow> bool" where
  "search_loop arr v minIdx maxIdx =
     (if minIdx \<le> maxIdx then
        (let midIdx = (minIdx + maxIdx) div 2
         in case at arr midIdx of
              None \<Rightarrow> False
            | Some a \<Rightarrow>
                (let testResult = v - a
                 in if testResult < 0 then search_loop arr v minIdx (midIdx - 1)
                    else if testResult > 0 then search_loop arr v (midIdx + 1) maxIdx
                    else if testResult = 0 then True
                    else False))
      else False)"
  by pat_completeness auto
termination
  by (relation "measure (\<lambda>(arr, v, minIdx, maxIdx). nat (maxIdx - minIdx + 1))") auto

declare search_loop.simps [simp del]

definition existsInArray :: "int list \<Rightarrow> int \<Rightarrow> bool" where
  "existsInArray arr v =
     (if length arr < 10 then v \<in> set arr
      else if arr ! 0 < v \<or> arr ! (length arr - 1) > v then False
      else search_loop arr v 0 (int (length arr) - 1))"

subsection \<open>The registry: addTask, removeTask, getTasks\<close>

definition stop :: "cron \<Rightarrow> cron" where
  "stop st =
     (case runner st of
        None \<Rightarrow> st
      | Some t \<Rightarrow> st\<lparr>runner := Some (t\<lparr>cleared := True\<rparr>)\<rparr>)"

text \<open>\<open>d\<close> is the value of \<open>new Date()\<close> at the call.\<close>

definition start :: "Date \<Rightarrow> cron \<Rightarrow> cron" where
  "start d st =
     (stop st)\<lparr>runner := Some \<lparr>delay = (60 - getSeconds d) * 1000, cleared = False\<rparr>\<rparr>"

definition bind_err :: "error + 'a \<Rightarrow> ('a \<Rightarrow> error + 'b) \<Rightarrow> error + 'b" where
  "bind_err r f = (case r of Inl e \<Rightarrow> Inl e | Inr x \<Rightarrow> f x)"

text \<open>\<open>x ?? dflt\<close>\<close>

definition nullish :: "'a option \<Rightarrow> 'a \<Rightarrow> 'a" where
  "nullish x dflt = (case x of None \<Rightarrow> dflt | Some y \<Rightarrow> y)"

text \<open>\<open>exp.length >= 6 ? parseTimeExpression(exp[5], 2020, 2099) ?? null : null\<close>\<close>

definition year_field :: "string list \<Rightarrow> error + int list option" where
  "year_field exp =
     (if length exp \<ge> 6
      then bind_err (parseTimeExpression (exp ! 5) 2020 2099)
             (\<lambda>r5. Inr (case r5 of None \<Rightarrow> None | Some ys \<Rightarrow> Some ys))
      else Inr None)"

text \<open>The object literal \<open>newTask\<close> of \<open>addTask\<close>; its properties are evaluated in
  order, so the first field that fails to parse throws.\<close>

definition newTask :: "Task \<Rightarrow> string list \<Rightarrow> error + StoredTask" where
  "newTask task exp =
     bind_err (parseTimeExpression (exp ! 0) 0 59) (\<lambda>r0.
     bind_err (parseTimeExpression (exp ! 1) 0 23) (\<lambda>r1.
     bind_err (parseTimeExpression (exp ! 2) 1 31) (\<lambda>r2.
     bind_err (parseTimeExpression (exp ! 3) 1 12) (\<lambda>r3.
     bind_err (parseTimeExpression (exp ! 4) 0 6) (\<lambda>r4.
     bind_err (year_field exp) (\<lambda>y.
     Inr \<lparr>name = task_name task,
          expression = task_expression task,
          comment = nullish (task_comment task) '''',
          lastRun = None,
          countRuns = 0,
          maxRuns = task_maxRuns task,
          callBack = task_callBack task,
          min_f = nullish r0 [],
          hour = nullish r1 [],
          day = nullish r2 [],
          month = nullish r3 [],
          weekday = nullish r4 [],
          year = y\<rparr>))))))"

definition fields_of :: "string \<Rightarrow> string list" where
  "fields_of e = split_on CHR '' '' (trim (collapse_spaces e))"

text \<open>The splitting as the specification words it (section 4.2): runs of white space,
  not only of spaces, are collapsed to one space before the text is trimmed and split
  on spaces. It is compared with \<open>fields_of\<close>, the splitting of the code.\<close>

function collapse_white :: "string \<Rightarrow> string" where
  "collapse_white [] = []"
| "collapse_white (c # cs) =
     (if is_white c then CHR '' '' # collapse_white (dropWhile is_white cs)
      else c # collapse_white cs)"
  by pat_completeness auto
termination
  by (relation "measure length") (auto simp: length_dropWhile_le less_Suc_eq_le)

definition spec_fields :: "string \<Rightarrow> string list" where
  "spec_fields e = split_on CHR '' '' (trim (collapse_white e))"

text \<open>\<open>join c\<close> undoes \<open>split_on c\<close>; \<open>sp w\<close> is what a run \<open>w\<close> of white space
  collapses to; a field is \<open>white_free\<close> when it is non-empty and holds no white space.\<close>

fun join :: "char \<Rightarrow> string list \<Rightarrow> string" where
  "join c [] = []"
| "join c [x] = x"
| "join c (x # y # ys) = x @ c # join c (y # ys)"

definition sp :: "string \<Rightarrow> string" where
  "sp w = (if w = [] then [] else '' '')"

definition white_free :: "string \<Rightarrow> bool" where
  "white_free f = (f \<noteq> [] \<and> list_all (\<lambda>ch. \<not> is_white ch) f)"

text \<open>The body of the \<open>try\<close> block of \<open>addTask\<close>.\<close>

definition addTask_try :: "Date \<Rightarrow> Task \<Rightarrow> cron \<Rightarrow> error + cron" where
  "addTask_try d task st =
     (let exp = fields_of (task_expression task)
      in if length exp > 6 \<or> length exp < 5
         then Inl \<lparr>err_name = ''Error'', message = ''Invalid expression''\<rparr>
         else bind_err (newTask task exp) (\<lambda>t.
                let st1 = st\<lparr>objs := objs st @ [t], tasks := tasks st @ [length (objs st)]\<rparr>
                in Inr (if runner st1 = None then start d st1 else st1)))"

text \<open>The error after the \<open>catch\<close> block has rewritten it: the message
  \<open>Invalid cron expression '${task.expression}' for task '${task.name}'\<close> and the name
  \<open>SyntaxError\<close>.\<close>

definition count_error :: "Task \<Rightarrow> error" where
  "count_error task =
     \<lparr>err_name = ''SyntaxError'',
      message = ''Invalid cron expression '' @ [CHR 0x27] @ task_expression task
                @ [CHR 0x27] @ '' for task '' @ [CHR 0x27] @ task_name task
                @ [CHR 0x27]\<rparr>"

definition addTask :: "Date \<Rightarrow> Task \<Rightarrow> cron \<Rightarrow> error + cron" where
  "addTask d task st =
     (case addTask_try d task st of
        Inl err \<Rightarrow>
          Inl (if message err = ''Invalid expression'' then count_error task else err)
      | Inr st' \<Rightarrow> Inr st')"

text \<open>\<open>findIndex\<close>: the first position whose element satisfies the predicate, or -1.\<close>

fun findIndex :: "('a \<Rightarrow> bool) \<Rightarrow> 'a list \<Rightarrow> int" where
  "findIndex p [] = -1"
| "findIndex p (x # xs) =
     (if p x then 0 else (let i = findIndex p xs in if i = -1 then -1 else i + 1))"

definition removeTask :: "string \<Rightarrow> cron \<Rightarrow> cron" where
  "removeTask nm st =
     (let idx = findIndex (\<lambda>a. name (objs st ! a) = nm) (tasks st)
      in if idx > -1
         then st\<lparr>tasks := take (nat idx) (tasks st) @ drop (nat idx + 1) (tasks st)\<rparr>
         else st)"

definition getTasks :: "cron \<Rightarrow> TaskInfo list" where
  "getTasks st =
     map (\<lambda>a. let task = objs st ! a
              in \<lparr>name = name task,
                  expression = expression task,
                  comment = comment task,
                  lastRun = lastRun task,
                  countRuns = countRuns task,
                  maxRuns = maxRuns task\<rparr>)
         (tasks st)"

text \<open>Every address in the registry is allocated.\<close>

definition valid :: "cron \<Rightarrow> bool" where
  "valid st = list_all (\<lambda>a. a < length (objs st)) (tasks st)"

text \<open>The entry that \<open>getTasks\<close> shows for a task that was registered and has not run.\<close>

definition info_of :: "Task \<Rightarrow> TaskInfo" where
  "info_of task =
     \<lparr>name = task_name task,
      expression = task_expression task,
      comment = nullish (task_comment task) '''',
      lastRun = None,
      countRuns = 0,
      maxRuns = task_maxRuns task\<rparr>"

text \<open>A sequence of \<open>addTask\<close> calls, each with the time of the call; the first
  error ends it.\<close>

fun addTasks :: "(Date \<times> Task) list \<Rightarrow> cron \<Rightarrow> error + cron" where
  "addTasks [] st = Inr st"
| "addTasks ((d, task) # rest) st =
     (case addTask d task st of Inl e \<Rightarrow> Inl e | Inr st' \<Rightarrow> addTasks rest st')"

subsection \<open>tick\<close>

record Now =
  now_min :: int
  now_hour :: int
  now_day :: int
  now_month :: int
  now_weekday :: int
  now_year :: int

text \<open>The object \<open>now\<close> of \<open>tick\<close>. In \<open>d.getMinutes() + d.getSeconds() > 50 ? 1 : 0\<close>
  the conditional operator binds weakest, so the sum is compared with 50 and \<open>min\<close> is
  1 or 0.\<close>

definition now_of :: "Date \<Rightarrow> Now" where
  "now_of d =
     \<lparr>now_min = (if getMinutes d + getSeconds d > 50 then 1 else 0),
      now_hour = getHours d,
      now_day = getDate d,
      now_month = getMonth d + 1,
      now_weekday = getDay d,
      now_year = getFullYear d\<rparr>"

text \<open>\<open>Object.entries(now).every(\<dots>)\<close>: the six entries in insertion order.\<close>

definition runTask :: "StoredTask \<Rightarrow> Now \<Rightarrow> bool" where
  "runTask task now =
     (existsInArray (min_f task) (now_min now)
      \<and> existsInArray (hour task) (now_hour now)
      \<and> existsInArray (day task) (now_day now)
      \<and> existsInArray (month task) (now_month now)
      \<and> existsInArray (weekday task) (now_weekday now)
      \<and> (case year task of None \<Rightarrow> True | Some ys \<Rightarrow> existsInArray ys (now_year now)))"

text \<open>One tick at time \<open>d\<close>: the next wake is scheduled, and the addresses of the
  matching tasks are returned in registry order; each stands for one execution
  scheduled with \<open>setTimeout(\<dots>, 5)\<close>.\<close>

definition tick :: "Date \<Rightarrow> cron \<Rightarrow> cron \<times> nat list" where
  "tick d st =
     (st\<lparr>runner := Some \<lparr>delay = (60 - getSeconds d) * 1000, cleared = False\<rparr>\<rparr>,
      filter (\<lambda>a. runTask (objs st ! a) (now_of d)) (tasks st))"

text \<open>The body of a dispatched execution, for the task object at address \<open>a\<close>, run at
  time \<open>d\<close>. A callback that throws leaves the \<open>try\<close> block before the \<open>maxRuns\<close> test;
  a returned promise, rejected or not, does not.\<close>

definition execute :: "Date \<Rightarrow> nat \<Rightarrow> cron \<Rightarrow> cron" where
  "execute d a st =
     (let task = (objs st ! a)\<lparr>lastRun := Some d, countRuns := countRuns (objs st ! a) + 1\<rparr>;
          st1 = st\<lparr>objs := (objs st)[a := task]\<rparr>
      in case callBack task of
           Throws \<Rightarrow> st1
         | _ \<Rightarrow>
             (if (case maxRuns task of None \<Rightarrow> False | Some m \<Rightarrow> m \<noteq> 0 \<and> countRuns task = m)
              then removeTask (name task) st1
              else st1))"

text \<open>All executions dispatched by one tick, in order.\<close>

definition tick_and_run :: "Date \<Rightarrow> cron \<Rightarrow> cron" where
  "tick_and_run d st = (case tick d st of (st1, pending) \<Rightarrow> fold (execute d) pending st1)"

subsection \<open>Invariants and reachable states\<close>

text \<open>A compiled field set: strictly ascending and within its domain.\<close>

definition field_ok :: "int \<Rightarrow> int \<Rightarrow> int list \<Rightarrow> bool" where
  "field_ok lo hi xs = (sorted_wrt (<) xs \<and> list_all (\<lambda>x. lo \<le> x \<and> x \<le> hi) xs)"

text \<open>The invariant of a compiled task: every field set within its own domain; the year
  set, when present, non-empty.\<close>

definition task_ok :: "StoredTask \<Rightarrow> bool" where
  "task_ok t =
     (field_ok 0 59 (min_f t) \<and> field_ok 0 23 (hour t) \<and> field_ok 1 31 (day t)
      \<and> field_ok 1 12 (month t) \<and> field_ok 0 6 (weekday t)
      \<and> (case year t of None \<Rightarrow> True | Some ys \<Rightarrow> field_ok 2020 2099 ys \<and> ys \<noteq> []))"

definition fields_nonempty :: "StoredTask \<Rightarrow> bool" where
  "fields_nonempty t =
     (min_f t \<noteq> [] \<and> hour t \<noteq> [] \<and> day t \<noteq> [] \<and> month t \<noteq> [] \<and> weekday t \<noteq> [])"

text \<open>The states of the scheduler: the empty registry, and what \<open>addTask\<close>,
  \<open>removeTask\<close>, a tick and the execution scheduled for a task object make of a state.\<close>

inductive reachable :: "cron \<Rightarrow> bool" where
  r_init: "reachable init"
| r_add: "reachable st \<Longrightarrow> addTask d task st = Inr st' \<Longrightarrow> reachable st'"
| r_remove: "reachable st \<Longrightarrow> reachable (removeTask nm st)"
| r_tick: "reachable st \<Longrightarrow> reachable (fst (tick d st))"
| r_run: "reachable st \<Longrightarrow> a < length (objs st) \<Longrightarrow> reachable (execute d a st)"

subsection \<open>Sample inputs\<close>

text \<open>Sunday, 1 January 2023, 00:00:00 and Tuesday, 18 June 2024, 03:30:00.\<close>

definition sunday_midnight :: Date where
  "sunday_midnight =
     \<lparr>getFullYear = 2023, getMonth = 0, getDate = 1, getDay = 0,
      getHours = 0, getMinutes = 0, getSeconds = 0\<rparr>"

definition half_past_three :: Date where
  "half_past_three =
     \<lparr>getFullYear = 2024, getMonth = 5, getDate = 18, getDay = 2,
      getHours = 3, getMinutes = 30, getSeconds = 0\<rparr>"

definition tuesday_three :: Now where
  "tuesday_three =
     \<lparr>now_min = 0, now_hour = 3, now_day = 18, now_month = 6, now_weekday = 2,
      now_year = 2024\<rparr>"

definition quarters_task :: Task where
  "quarters_task =
     \<lparr>task_name = ''quarters'', task_expression = ''0,15,30,45 0-6 * * 1-4'',
      task_callBack = Returns, task_comment = None, task_maxRuns = None\<rparr>"

definition bad_minute_task :: Task where
  "bad_minute_task =
     \<lparr>task_name = ''job'', task_expression = ''61 * * * *'',
      task_callBack = Returns, task_comment = None, task_maxRuns = None\<rparr>"

definition throwing_task :: Task where
  "throwing_task =
     \<lparr>task_name = ''job'', task_expression = ''0 0 1 1 0'',
      task_callBack = Throws, task_comment = None, task_maxRuns = Some 1\<rparr>"

definition rejecting_task :: Task where
  "rejecting_task =
     \<lparr>task_name = ''job'', task_expression = ''0 0 1 1 0'',
      task_callBack = ReturnsPromise Rejected, task_comment = None, task_maxRuns = Some 1\<rparr>"

definition four_fields_task :: Task where
  "four_fields_task =
     \<lparr>task_name = ''short'', task_expression = ''* * * *'',
      task_callBack = Returns, task_comment = None, task_maxRuns = None\<rparr>"

definition year_task :: Task where
  "year_task =
     \<lparr>task_name = ''once'', task_expression = ''0 0 1 1 * 2025'',
      task_callBack = Returns, task_comment = None, task_maxRuns = None\<rparr>"

definition early_year_task :: Task where
  "early_year_task =
     \<lparr>task_name = ''early'', task_expression = ''0 0 1 1 * 2019'',
      task_callBack = Returns, task_comment = None, task_maxRuns = None\<rparr>"

definition spaced_task :: Task where
  "spaced_task =
     \<lparr>task_name = ''spaced'', task_expression = ''  0,15,30,45   0-6 1 1  1-4 '',
      task_callBack = Returns, task_comment = Some ''night'', task_maxRuns = Some 3\<rparr>"

section \<open>Facts about the parser\<close>

lemma set_dedupe_fold:
  "set (fold (\<lambda>x acc. if x \<in> set acc then acc else acc @ [x]) xs acc) = set acc \<union> set xs"
  by (induction xs arbitrary: acc) auto

lemma distinct_dedupe_fold:
  "distinct acc \<Longrightarrow> distinct (fold (\<lambda>x acc. if x \<in> set acc then acc else acc @ [x]) xs acc)"
  by (induction xs arbitrary: acc) auto

lemma dedupe_fold_id:
  "distinct (acc @ xs) \<Longrightarrow> fold (\<lambda>x acc. if x \<in> set acc then acc else acc @ [x]) xs acc = acc @ xs"
  by (induction xs arbitrary: acc) auto

lemma set_dedupe [simp]: "set (dedupe xs) = set xs"
  by (simp add: dedupe_def set_dedupe_fold)

lemma distinct_dedupe [simp]: "distinct (dedupe xs)"
  by (simp add: dedupe_def distinct_dedupe_fold)

lemma dedupe_id: "distinct xs \<Longrightarrow> dedupe xs = xs"
  using dedupe_fold_id[of "[]" xs] by (simp add: dedupe_def)

lemma strict_sort_dedupe: "sorted_wrt (<) (sort (dedupe xs))"
  by (simp add: strict_sorted_iff)

lemma set_sort_dedupe: "set (sort (dedupe xs)) = set xs"
  by simp

lemma sort_dedupe_upto: "sort (dedupe [i..j]) = [i..j]"
  by (simp add: dedupe_id sorted_sort_id)

lemma sort_dedupe_Nil_iff: "sort (dedupe xs) = [] \<longleftrightarrow> xs = []"
  using set_sort_dedupe[of xs] by (metis set_empty)

lemma every_collect_True:
  "every_collect rs acc = (out, True) \<Longrightarrow>
   \<exists>vss. rs = map (\<lambda>vs. Inr (Some vs)) vss \<and> out = acc @ concat vss"
proof (induction rs arbitrary: acc)
  case Nil
  then show ?case by simp
next
  case (Cons r rs)
  then obtain vs where r: "r = Inr (Some vs)"
    by (auto split: sum.splits option.splits)
  with Cons.prems have "every_collect rs (acc @ vs) = (out, True)" by simp
  from Cons.IH[OF this] obtain vss where
    "rs = map (\<lambda>vs. Inr (Some vs)) vss" "out = (acc @ vs) @ concat vss" by blast
  then show ?case using r by (intro exI[of _ "vs # vss"]) simp
qed

lemma parseTimeExpression_unfold:
  "parseTimeExpression te mn mx =
     (if te = ''*'' then Inr (Some [mn..mx])
      else if re_number te \<and> mn \<le> parseInt te \<and> parseInt te \<le> mx
        then Inr (Some [parseInt te])
      else if re_range te \<and> mn \<le> parseInt (split_on CHR ''-'' te ! 0)
                \<and> parseInt (split_on CHR ''-'' te ! 1) \<le> mx
                \<and> parseInt (split_on CHR ''-'' te ! 0) < parseInt (split_on CHR ''-'' te ! 1)
        then Inr (Some [parseInt (split_on CHR ''-'' te ! 0) .. parseInt (split_on CHR ''-'' te ! 1)])
      else if re_list te
        then (case every_collect (map (\<lambda>v. parseTimeExpression v mn mx) (split_on CHR '','' te)) [] of
                (r, ok) \<Rightarrow> if ok then Inr (Some (sort (dedupe r))) else Inl (parse_error te))
      else Inl (parse_error te))"
proof (cases "te = ''*''")
  case True
  then show ?thesis
    by (subst parseTimeExpression.simps) (simp add: Let_def sort_dedupe_upto)
next
  case ns: False
  show ?thesis
  proof (cases "re_number te \<and> mn \<le> parseInt te \<and> parseInt te \<le> mx")
    case True
    then show ?thesis using ns
      by (subst parseTimeExpression.simps) (simp add: Let_def dedupe_def)
  next
    case nn: False
    show ?thesis
    proof (cases "re_range te \<and> mn \<le> parseInt (split_on CHR ''-'' te ! 0)
                \<and> parseInt (split_on CHR ''-'' te ! 1) \<le> mx
                \<and> parseInt (split_on CHR ''-'' te ! 0) < parseInt (split_on CHR ''-'' te ! 1)")
      case True
      then show ?thesis using ns nn
        by (subst parseTimeExpression.simps) (auto simp add: Let_def sort_dedupe_upto)
    next
      case nr: False
      show ?thesis
      proof (cases "re_list te")
        case True
        then show ?thesis using ns nn nr
          by (subst parseTimeExpression.simps) (auto simp add: Let_def parse_error_def split: prod.splits)
      next
        case False
        then show ?thesis using ns nn nr
          by (subst parseTimeExpression.simps) (auto simp add: Let_def parse_error_def)
      qed
    qed
  qed
qed

lemma strict_upto: "sorted_wrt (<) [i..j]"
  by (simp add: strict_sorted_iff)

lemma map_eq_member:
  assumes "map f ps = map g vss" and "vs \<in> set vss"
  shows "\<exists>p \<in> set ps. f p = g vs"
proof -
  from assms(2) obtain i where i: "i < length vss" "vss ! i = vs"
    by (auto simp: in_set_conv_nth)
  have len: "length ps = length vss" using assms(1) by (rule map_eq_imp_length_eq)
  have "map f ps ! i = map g vss ! i" using assms(1) by simp
  then have "f (ps ! i) = g vs" using i len by simp
  moreover have "ps ! i \<in> set ps" using i len by simp
  ultimately show ?thesis by blast
qed

lemma parseTimeExpression_cases:
  assumes "parseTimeExpression te mn mx = Inr r"
  obtains
    (star) "te = ''*''" "r = Some [mn..mx]"
  | (num) "re_number te" "mn \<le> parseInt te" "parseInt te \<le> mx" "r = Some [parseInt te]"
  | (range) lo hi where "re_range te" "lo = parseInt (split_on CHR ''-'' te ! 0)"
      "hi = parseInt (split_on CHR ''-'' te ! 1)" "mn \<le> lo" "hi \<le> mx" "lo < hi"
      "r = Some [lo..hi]"
  | (list) vss where "re_list te"
      "map (\<lambda>v. parseTimeExpression v mn mx) (split_on CHR '','' te)
       = map (\<lambda>vs. Inr (Some vs)) vss"
      "r = Some (sort (dedupe (concat vss)))"
proof (cases "te = ''*''")
  case True
  with assms have "r = Some [mn..mx]"
    by (subst (asm) parseTimeExpression_unfold) simp
  with True show ?thesis by (rule star)
next
  case ns: False
  show ?thesis
  proof (cases "re_number te \<and> mn \<le> parseInt te \<and> parseInt te \<le> mx")
    case True
    with assms ns have "r = Some [parseInt te]"
      by (subst (asm) parseTimeExpression_unfold) simp
    with True show ?thesis using num by blast
  next
    case nn: False
    let ?lo = "parseInt (split_on CHR ''-'' te ! 0)"
    let ?hi = "parseInt (split_on CHR ''-'' te ! 1)"
    show ?thesis
    proof (cases "re_range te \<and> mn \<le> ?lo \<and> ?hi \<le> mx \<and> ?lo < ?hi")
      case True
      with assms ns nn have "r = Some [?lo..?hi]"
        by (subst (asm) parseTimeExpression_unfold) simp
      with True show ?thesis using range[of ?lo ?hi] by blast
    next
      case nr: False
      let ?rs = "map (\<lambda>v. parseTimeExpression v mn mx) (split_on CHR '','' te)"
      obtain out ok where ec: "every_collect ?rs [] = (out, ok)"
        by (cases "every_collect ?rs []") auto
      from assms ns nn nr have body:
        "(if re_list te then (if ok then Inr (Some (sort (dedupe out))) else Inl (parse_error te))
          else Inl (parse_error te)) = Inr r"
        by (subst (asm) parseTimeExpression_unfold)
           (auto simp add: ec simp del: One_nat_def split: if_splits)
      then have rl: "re_list te" and ok: "ok" and r: "r = Some (sort (dedupe out))"
        by (auto split: if_splits)
      from every_collect_True[OF ec[unfolded ok[THEN eqTrueI]]]
      obtain vss where "?rs = map (\<lambda>vs. Inr (Some vs)) vss" "out = concat vss"
        by auto
      with rl r show ?thesis using list[of vss] by blast
    qed
  qed
qed

lemma parseTimeExpression_error:
  assumes "parseTimeExpression te mn mx = Inl e"
  shows "e = parse_error te"
  using assms
  by (subst (asm) parseTimeExpression_unfold) (auto split: if_splits prod.splits)

lemma re_list_piece_shorter:
  "re_list te \<Longrightarrow> p \<in> set (split_on CHR '','' te) \<Longrightarrow> length p < length te"
  using re_list_has_comma split_on_length_less by blast

lemma parseTimeExpression_in_range:
  "parseTimeExpression te mn mx = Inr (Some xs) \<Longrightarrow> x \<in> set xs \<Longrightarrow> mn \<le> x \<and> x \<le> mx"
proof (induction te arbitrary: xs x rule: measure_induct_rule[of length])
  case (less te)
  from less.prems(1) show ?case
  proof (cases rule: parseTimeExpression_cases)
    case star
    with less.prems(2) show ?thesis by simp
  next
    case num
    with less.prems(2) show ?thesis by simp
  next
    case (range lo hi)
    with less.prems(2) show ?thesis by simp
  next
    case (list vss)
    with less.prems(2) obtain vs where vs: "vs \<in> set vss" "x \<in> set vs" by auto
    from map_eq_member[OF list(2) vs(1)] obtain p where
      p: "p \<in> set (split_on CHR '','' te)" "parseTimeExpression p mn mx = Inr (Some vs)"
      by blast
    from re_list_piece_shorter[OF list(1) p(1)] have "length p < length te" .
    from less.IH[OF this p(2) vs(2)] show ?thesis .
  qed
qed

lemma parseTimeExpression_strict:
  assumes "parseTimeExpression te mn mx = Inr (Some xs)"
  shows "sorted_wrt (<) xs"
  using assms
  by (cases rule: parseTimeExpression_cases) (simp_all add: strict_upto strict_sort_dedupe)

lemma parseTimeExpression_not_null: "parseTimeExpression te mn mx \<noteq> Inr None"
proof
  assume "parseTimeExpression te mn mx = Inr None"
  then show False by (cases rule: parseTimeExpression_cases) simp_all
qed

lemma parseTimeExpression_nonempty:
  "mn \<le> mx \<Longrightarrow> parseTimeExpression te mn mx = Inr (Some xs) \<Longrightarrow> xs \<noteq> []"
proof (induction te arbitrary: xs rule: measure_induct_rule[of length])
  case (less te)
  from less.prems(2) show ?case
  proof (cases rule: parseTimeExpression_cases)
    case star
    with less.prems(1) show ?thesis by simp
  next
    case num
    then show ?thesis by simp
  next
    case (range lo hi)
    then show ?thesis by simp
  next
    case (list vss)
    have "length (split_on CHR '','' te) = length vss"
      using list(2) by (rule map_eq_imp_length_eq)
    moreover have "2 \<le> length (split_on CHR '','' te)"
      using list(1) by (simp add: re_list_def Let_def)
    ultimately obtain vs rest where vss: "vss = vs # rest" by (cases vss) auto
    then have "vs \<in> set vss" by simp
    from map_eq_member[OF list(2) this] obtain p where
      p: "p \<in> set (split_on CHR '','' te)" "parseTimeExpression p mn mx = Inr (Some vs)"
      by blast
    from re_list_piece_shorter[OF list(1) p(1)] have "length p < length te" .
    from less.IH[OF this less.prems(1) p(2)] have "vs \<noteq> []" .
    then have "concat vss \<noteq> []" using vss by simp
    then show ?thesis using list(3) by (simp add: sort_dedupe_Nil_iff)
  qed
qed

text \<open>Apart from the wildcard, whose result is the whole domain, a successful parse is
  non-empty whatever the bounds are.\<close>

lemma star_not_piece: "\<not> (is_digit CHR ''*'' \<or> CHR ''*'' = CHR ''-'')"
  by (simp add: is_digit_def)

lemma parseTimeExpression_nonempty_text:
  "te \<noteq> ''*'' \<Longrightarrow> parseTimeExpression te mn mx = Inr (Some xs) \<Longrightarrow> xs \<noteq> []"
proof (induction te arbitrary: xs rule: measure_induct_rule[of length])
  case (less te)
  from less.prems(2) show ?case
  proof (cases rule: parseTimeExpression_cases)
    case star
    with less.prems(1) show ?thesis by simp
  next
    case num
    then show ?thesis by simp
  next
    case (range lo hi)
    then show ?thesis by simp
  next
    case (list vss)
    have "length (split_on CHR '','' te) = length vss"
      using list(2) by (rule map_eq_imp_length_eq)
    moreover have "2 \<le> length (split_on CHR '','' te)"
      using list(1) by (simp add: re_list_def Let_def)
    ultimately obtain vs rest where vss: "vss = vs # rest" by (cases vss) auto
    then have "vs \<in> set vss" by simp
    from map_eq_member[OF list(2) this] obtain p where
      p: "p \<in> set (split_on CHR '','' te)" "parseTimeExpression p mn mx = Inr (Some vs)"
      by blast
    have "list_all (\<lambda>c. is_digit c \<or> c = CHR ''-'') p"
      using list(1) p(1) by (simp add: re_list_def Let_def list_all_iff)
    then have ns: "p \<noteq> ''*''" using star_not_piece by auto
    from re_list_piece_shorter[OF list(1) p(1)] have "length p < length te" .
    from less.IH[OF this ns p(2)] have "vs \<noteq> []" .
    then have "concat vss \<noteq> []" using vss by simp
    then show ?thesis using list(3) by (simp add: sort_dedupe_Nil_iff)
  qed
qed

lemma parse_Inr_Some:
  "parseTimeExpression te mn mx = Inr r \<Longrightarrow> \<exists>xs. r = Some xs"
  using parseTimeExpression_not_null[of te mn mx] by (cases r) auto

lemma newTask_Inr_iff:
  "newTask task exp = Inr t \<longleftrightarrow>
   (\<exists>r0 r1 r2 r3 r4 y.
      parseTimeExpression (exp ! 0) 0 59 = Inr r0 \<and>
      parseTimeExpression (exp ! 1) 0 23 = Inr r1 \<and>
      parseTimeExpression (exp ! 2) 1 31 = Inr r2 \<and>
      parseTimeExpression (exp ! 3) 1 12 = Inr r3 \<and>
      parseTimeExpression (exp ! 4) 0 6 = Inr r4 \<and>
      year_field exp = Inr y \<and>
      t = \<lparr>name = task_name task, expression = task_expression task,
           comment = nullish (task_comment task) '''', lastRun = None, countRuns = 0,
           maxRuns = task_maxRuns task, callBack = task_callBack task,
           min_f = nullish r0 [], hour = nullish r1 [], day = nullish r2 [],
           month = nullish r3 [], weekday = nullish r4 [], year = y\<rparr>)"
  unfolding newTask_def
  by (cases "parseTimeExpression (exp ! 0) 0 59"; cases "parseTimeExpression (exp ! 1) 0 23";
      cases "parseTimeExpression (exp ! 2) 1 31"; cases "parseTimeExpression (exp ! 3) 1 12";
      cases "parseTimeExpression (exp ! 4) 0 6"; cases "year_field exp")
     (auto simp: bind_err_def)

subsection \<open>Decimal texts and range texts\<close>










section \<open>Facts about addTask\<close>

lemma bind_err_Inr:
  "bind_err r f = Inr y \<Longrightarrow> \<exists>x. r = Inr x \<and> f x = Inr y"
  by (cases r) (simp_all add: bind_err_def)

lemma newTask_error:
  assumes "newTask task exp = Inl e"
  shows "\<exists>f. e = parse_error f"
proof -
  have yf: "year_field exp = Inl e \<Longrightarrow> \<exists>f. e = parse_error f"
    by (auto simp: year_field_def bind_err_def split: if_splits sum.splits
             dest: parseTimeExpression_error)
  show ?thesis
    using assms yf unfolding newTask_def
    by (cases "parseTimeExpression (exp ! 0) 0 59"; cases "parseTimeExpression (exp ! 1) 0 23";
      cases "parseTimeExpression (exp ! 2) 1 31"; cases "parseTimeExpression (exp ! 3) 1 12";
      cases "parseTimeExpression (exp ! 4) 0 6"; cases "year_field exp")
     (auto simp: bind_err_def dest: parseTimeExpression_error)
qed

lemma parse_error_message: "message (parse_error f) \<noteq> ''Invalid expression''"
  by (simp add: parse_error_def)

lemma addTask_count:
  assumes "length (fields_of (task_expression task)) > 6
           \<or> length (fields_of (task_expression task)) < 5"
  shows "addTask d task st = Inl (count_error task)"
  using assms by (simp add: addTask_def addTask_try_def Let_def count_error_def)

lemma addTask_Inr:
  assumes "addTask d task st = Inr st'"
  obtains t where
    "5 \<le> length (fields_of (task_expression task))"
    "length (fields_of (task_expression task)) \<le> 6"
    "newTask task (fields_of (task_expression task)) = Inr t"
    "objs st' = objs st @ [t]"
    "tasks st' = tasks st @ [length (objs st)]"
proof -
  let ?exp = "fields_of (task_expression task)"
  from assms have tr: "addTask_try d task st = Inr st'"
    by (simp add: addTask_def split: sum.splits)
  then have len: "5 \<le> length ?exp" "length ?exp \<le> 6"
    by (auto simp: addTask_try_def Let_def split: if_splits)
  with tr obtain t where t: "newTask task ?exp = Inr t"
    and st': "st' = (let st1 = st\<lparr>objs := objs st @ [t], tasks := tasks st @ [length (objs st)]\<rparr>
                in (if runner st1 = None then start d st1 else st1))"
    by (cases "newTask task ?exp") (auto simp: addTask_try_def Let_def bind_err_def)
  have "objs st' = objs st @ [t]" "tasks st' = tasks st @ [length (objs st)]"
    using st' by (auto simp: Let_def start_def stop_def split: option.splits)
  with len t show ?thesis using that by blast
qed

lemma addTask_newTask_Inl:
  assumes "5 \<le> length (fields_of (task_expression task))"
    "length (fields_of (task_expression task)) \<le> 6"
    "newTask task (fields_of (task_expression task)) = Inl e"
  shows "addTask d task st = Inl e"
proof -
  from newTask_error[OF assms(3)] obtain f where "e = parse_error f" by blast
  then have "message e \<noteq> ''Invalid expression''" by (simp add: parse_error_message)
  then show ?thesis using assms
    by (simp add: addTask_def addTask_try_def Let_def bind_err_def)
qed

lemma newTask_year_Inl:
  assumes "isl (year_field exp)"
  shows "isl (newTask task exp)"
  using assms unfolding newTask_def
  by (cases "parseTimeExpression (exp ! 0) 0 59"; cases "parseTimeExpression (exp ! 1) 0 23";
      cases "parseTimeExpression (exp ! 2) 1 31"; cases "parseTimeExpression (exp ! 3) 1 12";
      cases "parseTimeExpression (exp ! 4) 0 6"; cases "year_field exp")
     (auto simp: bind_err_def)

lemma year_field_cases:
  assumes "year_field exp = Inr y"
  shows "if 6 \<le> length exp then parseTimeExpression (exp ! 5) 2020 2099 = Inr y else y = None"
proof (cases "6 \<le> length exp")
  case True
  with assms obtain r5 where r5: "parseTimeExpression (exp ! 5) 2020 2099 = Inr r5"
    "y = (case r5 of None \<Rightarrow> None | Some ys \<Rightarrow> Some ys)"
    by (auto simp: year_field_def dest!: bind_err_Inr)
  then show ?thesis using True by (cases r5) auto
next
  case False
  with assms show ?thesis by (simp add: year_field_def)
qed

lemma newTask_success:
  assumes "newTask task exp = Inr t"
  obtains m h dd mo w where
    "parseTimeExpression (exp ! 0) 0 59 = Inr (Some m)"
    "parseTimeExpression (exp ! 1) 0 23 = Inr (Some h)"
    "parseTimeExpression (exp ! 2) 1 31 = Inr (Some dd)"
    "parseTimeExpression (exp ! 3) 1 12 = Inr (Some mo)"
    "parseTimeExpression (exp ! 4) 0 6 = Inr (Some w)"
    "year_field exp = Inr (year t)"
    "min_f t = m" "hour t = h" "day t = dd" "month t = mo" "weekday t = w"
    "name t = task_name task" "expression t = task_expression task"
    "comment t = nullish (task_comment task) ''''" "lastRun t = None" "countRuns t = 0"
    "maxRuns t = task_maxRuns task" "callBack t = task_callBack task"
proof -
  from assms[unfolded newTask_Inr_iff] obtain r0 r1 r2 r3 r4 y where
    r0: "parseTimeExpression (exp ! 0) 0 59 = Inr r0"
    and r1: "parseTimeExpression (exp ! 1) 0 23 = Inr r1"
    and r2: "parseTimeExpression (exp ! 2) 1 31 = Inr r2"
    and r3: "parseTimeExpression (exp ! 3) 1 12 = Inr r3"
    and r4: "parseTimeExpression (exp ! 4) 0 6 = Inr r4"
    and y: "year_field exp = Inr y"
    and t: "t = \<lparr>name = task_name task, expression = task_expression task,
           comment = nullish (task_comment task) '''', lastRun = None, countRuns = 0,
           maxRuns = task_maxRuns task, callBack = task_callBack task,
           min_f = nullish r0 [], hour = nullish r1 [], day = nullish r2 [],
           month = nullish r3 [], weekday = nullish r4 [], year = y\<rparr>"
    by (elim exE conjE)
  from parse_Inr_Some[OF r0] obtain m where m: "r0 = Some m" ..
  from parse_Inr_Some[OF r1] obtain h where h: "r1 = Some h" ..
  from parse_Inr_Some[OF r2] obtain dd where dd: "r2 = Some dd" ..
  from parse_Inr_Some[OF r3] obtain mo where mo: "r3 = Some mo" ..
  from parse_Inr_Some[OF r4] obtain w where w: "r4 = Some w" ..
  have yt: "year_field exp = Inr (year t)" using y by (simp add: t)
  have f: "min_f t = m" "hour t = h" "day t = dd" "month t = mo" "weekday t = w"
    by (simp_all add: t m h dd mo w nullish_def)
  have g: "name t = task_name task" "expression t = task_expression task"
    "comment t = nullish (task_comment task) ''''" "lastRun t = None" "countRuns t = 0"
    "maxRuns t = task_maxRuns task" "callBack t = task_callBack task"
    by (simp_all add: t)
  show ?thesis
    by (rule that[OF r0[unfolded m] r1[unfolded h] r2[unfolded dd] r3[unfolded mo]
          r4[unfolded w] yt f g])
qed

lemma year_field_isl:
  "6 \<le> length exp \<Longrightarrow> isl (parseTimeExpression (exp ! 5) 2020 2099) \<Longrightarrow> isl (year_field exp)"
  by (cases "parseTimeExpression (exp ! 5) 2020 2099") (simp_all add: year_field_def bind_err_def)

lemma addTask_year_fails:
  assumes "length (fields_of (task_expression task)) = 6"
    and "isl (parseTimeExpression (fields_of (task_expression task) ! 5) 2020 2099)"
  shows "isl (addTask d task st)"
proof -
  let ?exp = "fields_of (task_expression task)"
  have "isl (year_field ?exp)" using assms by (simp add: year_field_isl)
  then have "isl (newTask task ?exp)" by (rule newTask_year_Inl)
  then obtain e where "newTask task ?exp = Inl e" by (cases "newTask task ?exp") auto
  then have "addTask d task st = Inl e" using assms(1) by (intro addTask_newTask_Inl) simp_all
  then show ?thesis by simp
qed

lemma addTask_year:
  assumes "addTask d task st = Inr st'"
  shows "year_field (fields_of (task_expression task)) = Inr (year (last (objs st')))"
proof -
  from assms obtain t where t: "newTask task (fields_of (task_expression task)) = Inr t"
    "objs st' = objs st @ [t]"
    by (rule addTask_Inr)
  from t(1) have "year_field (fields_of (task_expression task)) = Inr (year t)"
    by (rule newTask_success)
  then show ?thesis using t(2) by simp
qed

lemma valid_init: "valid init"
  by (simp add: valid_def init_def)

lemma getTasks_addTask:
  assumes "valid st" and "addTask d task st = Inr st'"
  shows "getTasks st' = getTasks st @ [info_of task] \<and> valid st'"
proof -
  from assms(2) obtain t where t: "newTask task (fields_of (task_expression task)) = Inr t"
    and o: "objs st' = objs st @ [t]" and ts: "tasks st' = tasks st @ [length (objs st)]"
    by (rule addTask_Inr)
  have f: "name t = task_name task \<and> expression t = task_expression task
    \<and> comment t = nullish (task_comment task) '''' \<and> lastRun t = None \<and> countRuns t = 0
    \<and> maxRuns t = task_maxRuns task"
    by (rule newTask_success[OF t]) simp
  have old: "\<And>a. a \<in> set (tasks st) \<Longrightarrow> (objs st @ [t]) ! a = objs st ! a"
    using assms(1) by (simp add: valid_def list_all_iff nth_append)
  have "getTasks st' = getTasks st @ [info_of task]"
    unfolding getTasks_def o ts using old f by (simp add: info_of_def Let_def)
  moreover have "valid st'"
    using assms(1) unfolding valid_def o ts by (auto simp: list_all_iff)
  ultimately show ?thesis by blast
qed

lemma getTasks_addTasks:
  "valid st \<Longrightarrow> addTasks calls st = Inr st' \<Longrightarrow>
   getTasks st' = getTasks st @ map (\<lambda>(d, task). info_of task) calls"
proof (induction calls arbitrary: st)
  case Nil
  then show ?case by simp
next
  case (Cons c calls)
  obtain d task where c: "c = (d, task)" by (cases c)
  from Cons.prems(2) c obtain st1 where s1: "addTask d task st = Inr st1"
    and rest: "addTasks calls st1 = Inr st'"
    by (auto split: sum.splits)
  from getTasks_addTask[OF Cons.prems(1) s1]
  have g: "getTasks st1 = getTasks st @ [info_of task]" and v: "valid st1" by blast+
  from Cons.IH[OF v rest] g c show ?case by simp
qed

subsection \<open>The two ways of splitting an expression\<close>

text \<open>When \<open>addTask\<close> succeeds every field has parsed, so no field holds white space,
  and then the splitting of the specification and that of the code give the same fields.\<close>

lemma space_white: "is_white CHR '' ''"
  by (simp add: is_white_def)

lemma join_cons_first: "ps \<noteq> [] \<Longrightarrow> join c (cons_first x ps) = x # join c ps"
proof -
  assume "ps \<noteq> []"
  then obtain p qs where ps: "ps = p # qs" by (cases ps) auto
  show ?thesis unfolding ps by (cases qs) (simp_all add: cons_first_def)
qed

lemma join_split: "join c (split_on c s) = s"
proof (induction s)
  case Nil
  show ?case by simp
next
  case (Cons x xs)
  obtain p ps where ps: "split_on c xs = p # ps"
    using split_on_ne by (cases "split_on c xs") auto
  show ?case
  proof (cases "x = c")
    case True
    then show ?thesis using Cons ps by simp
  next
    case False
    then show ?thesis using Cons split_on_ne[of c xs] by (simp add: join_cons_first)
  qed
qed

lemma cw_prefix:
  "list_all (\<lambda>ch. \<not> is_white ch) f \<Longrightarrow> collapse_white (f @ x) = f @ collapse_white x"
  by (induction f) simp_all

lemma cw_white: "list_all is_white r \<Longrightarrow> collapse_white r = sp r"
proof (cases r)
  case Nil
  then show ?thesis by (simp add: sp_def)
next
  case (Cons c cs)
  assume "list_all is_white r"
  with Cons have c: "is_white c" and d: "dropWhile is_white cs = []"
    by (auto simp: list_all_iff)
  show ?thesis unfolding Cons using c by (simp only: collapse_white.simps d sp_def) simp
qed

lemma cw_white_then:
  assumes "list_all is_white l" and "x = [] \<or> \<not> is_white (hd x)"
  shows "collapse_white (l @ x) = sp l @ collapse_white x"
proof (cases l)
  case Nil
  then show ?thesis by (simp add: sp_def)
next
  case (Cons c cs)
  with assms(1) have c: "is_white c" and cs: "\<forall>ch\<in>set cs. is_white ch"
    by (auto simp: list_all_iff)
  have "dropWhile is_white x = x" using assms(2) by (cases x) auto
  with cs have d: "dropWhile is_white (cs @ x) = x" by (simp add: dropWhile_append)
  have "collapse_white ((c # cs) @ x) = CHR '' '' # collapse_white x"
    using c by (simp only: append_Cons collapse_white.simps d) simp
  then show ?thesis unfolding Cons by (simp add: sp_def)
qed

lemma join_Cons: "fs \<noteq> [] \<Longrightarrow> join c (f # fs) = f @ c # join c fs"
  by (cases fs) simp_all

lemma join_starts:
  assumes "fs \<noteq> []" and "list_all white_free fs"
  shows "join c fs \<noteq> [] \<and> hd (join c fs) = hd (hd fs)"
proof -
  from assms obtain f gs where fs: "fs = f # gs" and f: "f \<noteq> []"
    by (cases fs) (auto simp: white_free_def)
  show ?thesis unfolding fs using f by (cases gs) simp_all
qed

lemma cw_join:
  assumes "fs \<noteq> []" and "list_all white_free fs" and "list_all is_white r"
  shows "collapse_white (join CHR '' '' fs @ r) = join CHR '' '' fs @ sp r"
  using assms(1,2)
proof (induction fs rule: list_nonempty_induct)
  case (single x)
  then show ?case using assms(3) by (simp add: cw_prefix cw_white white_free_def)
next
  case (cons x xs)
  let ?rest = "join CHR '' '' xs @ r"
  have wf: "list_all white_free xs" and wx: "white_free x" using cons.prems by simp_all
  from join_starts[OF cons.hyps wf, of "CHR '' ''"]
  have ne: "join CHR '' '' xs \<noteq> []" and hd: "hd (join CHR '' '' xs) = hd (hd xs)" by blast+
  have "white_free (hd xs)" using wf cons.hyps by (cases xs) simp_all
  then have "\<not> is_white (hd (hd xs))" by (cases "hd xs") (simp_all add: white_free_def)
  with ne hd have h: "?rest = [] \<or> \<not> is_white (hd ?rest)" by simp
  have "collapse_white ('' '' @ ?rest) = sp '' '' @ collapse_white ?rest"
    using h space_white by (intro cw_white_then) simp_all
  then have "collapse_white (CHR '' '' # ?rest) = CHR '' '' # collapse_white ?rest"
    by (simp add: sp_def)
  moreover have "collapse_white ?rest = join CHR '' '' xs @ sp r"
    using cons.IH wf by simp
  moreover have "list_all (\<lambda>ch. \<not> is_white ch) x" using wx by (simp add: white_free_def)
  ultimately show ?case
    using cons.hyps by (simp add: join_Cons cw_prefix)
qed


lemma dropWhile_collapse_spaces:
  "dropWhile is_white (collapse_spaces x) = collapse_spaces (dropWhile is_white x)"
proof (induction x rule: collapse_spaces.induct)
  case (1 c d cs)
  show ?case
  proof (cases "c = CHR '' '' \<and> d = CHR '' ''")
    case True
    with 1 show ?thesis by (simp add: space_white)
  next
    case False
    show ?thesis
    proof (cases "is_white c")
      case True
      with False 1 show ?thesis by simp
    next
      case nw: False
      then have "c \<noteq> CHR '' ''" using space_white by auto
      with nw show ?thesis by simp
    qed
  qed
qed simp_all

lemma cw_collapse_spaces: "collapse_white (collapse_spaces e) = collapse_white e"
proof (induction e rule: measure_induct_rule[of length])
  case (less e)
  consider (nil) "e = []" | (one) c where "e = [c]" | (more) c d cs where "e = c # d # cs"
    by (cases e rule: collapse_spaces.cases) auto
  then show ?case
  proof cases
    case (more c d cs)
    note 1 = more
    show ?thesis
    proof (cases "c = CHR '' '' \<and> d = CHR '' ''")
      case True
      have "collapse_white (collapse_spaces (d # cs)) = collapse_white (d # cs)"
        using less.IH[of "d # cs"] 1 by simp
      with True 1 show ?thesis by (simp add: space_white)
    next
      case False
      show ?thesis
      proof (cases "is_white c")
        case True
        have "length (dropWhile is_white (d # cs)) < length e"
          using 1 length_dropWhile_le[of is_white "d # cs"] by simp
        from less.IH[OF this]
        have "collapse_white (collapse_spaces (dropWhile is_white (d # cs)))
              = collapse_white (dropWhile is_white (d # cs))" .
        then have "collapse_white (dropWhile is_white (collapse_spaces (d # cs)))
              = collapse_white (dropWhile is_white (d # cs))"
          by (simp only: dropWhile_collapse_spaces)
        moreover have "collapse_spaces e = c # collapse_spaces (d # cs)"
          using False 1 by auto
        ultimately show ?thesis using True 1
          by (simp only: collapse_white.simps if_True)
      next
        case nw: False
        have "collapse_white (collapse_spaces (d # cs)) = collapse_white (d # cs)"
          using less.IH[of "d # cs"] 1 by simp
        moreover have "collapse_spaces e = c # collapse_spaces (d # cs)"
          using False 1 by auto
        ultimately show ?thesis using nw 1 by simp
      qed
    qed
  next
    case nil
    then show ?thesis by simp
  next
    case (one c)
    then show ?thesis by simp
  qed
qed

lemma trim_decompose:
  "\<exists>l r. list_all is_white l \<and> list_all is_white r \<and> c = l @ trim c @ r"
proof -
  let ?m = "dropWhile is_white c"
  have a: "c = takeWhile is_white c @ ?m" by simp
  have "trim c @ rev (takeWhile is_white (rev ?m))
        = rev (takeWhile is_white (rev ?m) @ dropWhile is_white (rev ?m))"
    by (simp only: trim_def rev_append)
  also have "\<dots> = ?m" by (simp only: takeWhile_dropWhile_id rev_rev_ident)
  finally have b: "?m = trim c @ rev (takeWhile is_white (rev ?m))" by (rule sym)
  have "list_all is_white (takeWhile is_white c)"
    "list_all is_white (rev (takeWhile is_white (rev ?m)))"
    by (auto simp: list_all_iff dest: set_takeWhileD)
  moreover have "c = takeWhile is_white c @ trim c @ rev (takeWhile is_white (rev ?m))"
    using a b by metis
  ultimately show ?thesis by blast
qed

lemma trim_padded:
  assumes "t \<noteq> []" and "\<not> is_white (hd t)" and "\<not> is_white (last t)"
  shows "trim (sp l @ t @ sp r) = t"
proof -
  have 1: "dropWhile is_white (sp l @ t @ sp r) = t @ sp r"
    using assms(1,2) by (cases t) (auto simp: sp_def space_white)
  have "rev (t @ sp r) = sp r @ rev t" by (simp add: sp_def)
  moreover have "dropWhile is_white (sp r @ rev t) = rev t"
    using assms(1,3) by (cases "rev t") (auto simp: sp_def space_white last_rev[symmetric] hd_rev)
  ultimately show ?thesis by (simp add: trim_def 1)
qed


lemma join_ends:
  assumes "fs \<noteq> []" and "list_all white_free fs"
  shows "last (join c fs) = last (last fs)"
  using assms
proof (induction fs rule: list_nonempty_induct)
  case (single x)
  then show ?case by simp
next
  case (cons x xs)
  then have "join c xs \<noteq> []" using join_starts[of xs c] by simp
  with cons show ?case by (simp add: join_Cons)
qed

lemma spec_fields_agree:
  assumes "list_all white_free (fields_of e)"
  shows "spec_fields e = fields_of e"
proof -
  let ?c = "collapse_spaces e"
  let ?t = "trim ?c"
  let ?fs = "fields_of e"
  have fs: "?fs = split_on CHR '' '' ?t" by (simp add: fields_of_def)
  have ne: "?fs \<noteq> []" unfolding fs by (rule split_on_ne)
  have t: "join CHR '' '' ?fs = ?t" unfolding fs by (rule join_split)
  from join_starts[OF ne assms, of "CHR '' ''"] have tne: "?t \<noteq> []"
    and hd: "hd ?t = hd (hd ?fs)" by (simp_all add: t)
  from join_ends[OF ne assms, of "CHR '' ''"] have la: "last ?t = last (last ?fs)"
    by (simp add: t)
  have "white_free (hd ?fs)" "white_free (last ?fs)"
    using ne assms by (auto simp: list_all_iff)
  then have nh: "\<not> is_white (hd ?t)" and nl: "\<not> is_white (last ?t)"
    unfolding hd la by (auto simp: white_free_def list_all_iff)
  obtain l r where l: "list_all is_white l" and r: "list_all is_white r"
    and c: "?c = l @ ?t @ r"
    using trim_decompose[of ?c] by blast
  have "collapse_white e = collapse_white ?c" by (simp add: cw_collapse_spaces)
  also have "\<dots> = collapse_white (l @ (?t @ r))" using c by simp
  also have "\<dots> = sp l @ collapse_white (?t @ r)"
    using l tne nh by (intro cw_white_then) simp_all
  also have "collapse_white (?t @ r) = ?t @ sp r"
    using cw_join[OF ne assms r] by (simp only: t)
  finally have "collapse_white e = sp l @ ?t @ sp r" .
  then have "trim (collapse_white e) = ?t"
    using trim_padded[OF tne nh nl] by simp
  then show ?thesis by (simp add: spec_fields_def fs)
qed

lemma digit_not_white: "is_digit ch \<Longrightarrow> \<not> is_white ch"
  by (auto simp: is_digit_def is_white_def)

lemma re_number_white_free: "re_number te \<Longrightarrow> white_free te"
  by (auto simp: re_number_def white_free_def list_all_iff digit_not_white)

lemma set_join: "set (join c ps) \<subseteq> insert c (\<Union> (set ` set ps))"
  by (induction c ps rule: join.induct) auto

lemma parse_white_free:
  assumes "parseTimeExpression te mn mx = Inr r"
  shows "white_free te"
  using assms
proof (cases rule: parseTimeExpression_cases)
  case star
  then show ?thesis by (simp add: white_free_def is_white_def)
next
  case num
  then show ?thesis by (simp add: re_number_white_free)
next
  case (range lo hi)
  from range(1) obtain b where d: "dropWhile is_digit te = CHR ''-'' # b"
    and a: "takeWhile is_digit te \<noteq> []" and b: "re_number b"
    by (auto simp: re_range_def split: list.splits)
  have te: "te = takeWhile is_digit te @ CHR ''-'' # b"
    using takeWhile_dropWhile_id[of is_digit te] d by simp
  have "\<forall>ch\<in>set (takeWhile is_digit te). \<not> is_white ch"
    using digit_not_white by (auto dest: set_takeWhileD)
  moreover have "\<forall>ch\<in>set b. \<not> is_white ch"
    using b by (auto simp: re_number_def list_all_iff digit_not_white)
  moreover have "\<not> is_white CHR ''-''" by (simp add: is_white_def)
  ultimately have "list_all (\<lambda>ch. \<not> is_white ch) (takeWhile is_digit te @ CHR ''-'' # b)"
    by (auto simp: list_all_iff)
  then have "list_all (\<lambda>ch. \<not> is_white ch) te" by (subst te)
  then have "\<forall>ch \<in> set te. \<not> is_white ch" by (simp add: list_all_iff)
  moreover have "te \<noteq> []" using te by auto
  ultimately show ?thesis by (simp add: white_free_def list_all_iff)
next
  case (list vss)
  let ?ps = "split_on CHR '','' te"
  have pc: "\<forall>p\<in>set ?ps. \<forall>ch\<in>set p. is_digit ch \<or> ch = CHR ''-''"
    using list(1) by (auto simp: re_list_def Let_def list_all_iff)
  have "set te \<subseteq> insert CHR '','' (\<Union> (set ` set ?ps))"
    using set_join[of "CHR '',''" ?ps] by (simp add: join_split)
  then have c1: "\<forall>ch\<in>set te. ch = CHR '','' \<or> is_digit ch \<or> ch = CHR ''-''"
    using pc by auto
  have w1: "\<not> is_white CHR '',''" and w2: "\<not> is_white CHR ''-''"
    by (simp_all add: is_white_def)
  have "\<not> is_white ch" if "ch \<in> set te" for ch
  proof -
    from c1 that have "ch = CHR '','' \<or> is_digit ch \<or> ch = CHR ''-''" by (rule bspec)
    then show ?thesis
    proof (elim disjE)
      assume "ch = CHR '',''" then show ?thesis by (simp only: w1 not_False_eq_True)
    next
      assume "is_digit ch" then show ?thesis by (rule digit_not_white)
    next
      assume "ch = CHR ''-''" then show ?thesis by (simp only: w2 not_False_eq_True)
    qed
  qed
  then have "\<forall>ch\<in>set te. \<not> is_white ch" by blast
  moreover have "te \<noteq> []" using re_list_has_comma[OF list(1)] by auto
  ultimately show ?thesis by (simp add: white_free_def list_all_iff)
qed

lemma addTask_fields_white_free:
  assumes "addTask d task st = Inr st'"
  shows "list_all white_free (fields_of (task_expression task))"
proof -
  let ?exp = "fields_of (task_expression task)"
  from assms obtain t where len: "5 \<le> length ?exp" "length ?exp \<le> 6"
    and t: "newTask task ?exp = Inr t"
    by (rule addTask_Inr)
  have p: "white_free (?exp ! 0) \<and> white_free (?exp ! 1) \<and> white_free (?exp ! 2)
           \<and> white_free (?exp ! 3) \<and> white_free (?exp ! 4)"
    by (rule newTask_success[OF t]) (blast intro: parse_white_free)
  have y: "year_field ?exp = Inr (year t)" by (rule newTask_success[OF t])
  have p5: "white_free (?exp ! 5)" if "length ?exp = 6"
    using year_field_cases[OF y] that parse_white_free by auto
  have "white_free (?exp ! i)" if "i < length ?exp" for i
  proof -
    from that len have "i = 0 \<or> i = 1 \<or> i = 2 \<or> i = 3 \<or> i = 4 \<or> (i = 5 \<and> length ?exp = 6)"
      by linarith
    with p p5 show ?thesis by auto
  qed
  then show ?thesis by (simp add: list_all_length)
qed

lemma addTask_spec_fields:
  assumes "length (spec_fields (task_expression task)) < 5
           \<or> 6 < length (spec_fields (task_expression task))"
  shows "isl (addTask d task st)"
proof (rule ccontr)
  assume "\<not> isl (addTask d task st)"
  then obtain st' where s: "addTask d task st = Inr st'"
    by (cases "addTask d task st") auto
  from spec_fields_agree[OF addTask_fields_white_free[OF s]]
  have "spec_fields (task_expression task) = fields_of (task_expression task)" .
  moreover have "5 \<le> length (fields_of (task_expression task))
    \<and> length (fields_of (task_expression task)) \<le> 6"
    by (rule addTask_Inr[OF s]) simp
  ultimately show False using assms by simp
qed

section \<open>Facts about the registry and the dispatch\<close>

lemma objs_removeTask: "objs (removeTask nm st) = objs st"
  by (simp add: removeTask_def Let_def)

lemma tasks_removeTask: "set (tasks (removeTask nm st)) \<subseteq> set (tasks st)"
  by (auto simp: removeTask_def Let_def dest: in_set_takeD in_set_dropD)

lemma valid_removeTask: "valid st \<Longrightarrow> valid (removeTask nm st)"
  using tasks_removeTask[of nm st] by (auto simp: valid_def list_all_iff objs_removeTask)

lemma objs_execute:
  "objs (execute d a st)
   = (objs st)[a := (objs st ! a)\<lparr>lastRun := Some d, countRuns := countRuns (objs st ! a) + 1\<rparr>]"
  by (simp add: execute_def Let_def objs_removeTask split: outcome.splits)

lemma tasks_execute: "set (tasks (execute d a st)) \<subseteq> set (tasks st)"
proof -
  have "\<And>nm s. tasks s = tasks st \<Longrightarrow> set (tasks (removeTask nm s)) \<subseteq> set (tasks st)"
    using tasks_removeTask by metis
  then show ?thesis
    by (simp add: execute_def Let_def split: outcome.splits)
qed

lemma valid_execute: "valid st \<Longrightarrow> valid (execute d a st)"
  using tasks_execute[of d a st] by (auto simp: valid_def list_all_iff objs_execute)

lemma valid_addTask: "valid st \<Longrightarrow> addTask d task st = Inr st' \<Longrightarrow> valid st'"
  using getTasks_addTask by blast

lemma reachable_valid: "reachable st \<Longrightarrow> valid st"
proof (induction rule: reachable.induct)
  case r_init
  show ?case by (rule valid_init)
next
  case (r_add st d task st')
  then show ?case using valid_addTask by blast
next
  case (r_remove st nm)
  then show ?case by (simp add: valid_removeTask)
next
  case (r_tick st d)
  then show ?case by (simp add: tick_def valid_def)
next
  case (r_run st a d)
  then show ?case by (simp add: valid_execute)
qed

lemma reachable_objs:
  assumes r: "reachable st"
    and new: "\<And>task exp t. newTask task exp = Inr t \<Longrightarrow> P t"
    and upd: "\<And>t d n. P t \<Longrightarrow> P (t\<lparr>lastRun := d, countRuns := n\<rparr>)"
  shows "list_all P (objs st)"
  using r
proof (induction rule: reachable.induct)
  case r_init
  show ?case by (simp add: init_def)
next
  case (r_add st d task st')
  from r_add.hyps(2) obtain t where "newTask task (fields_of (task_expression task)) = Inr t"
    "objs st' = objs st @ [t]"
    by (rule addTask_Inr)
  with r_add.IH new show ?case by simp
next
  case (r_remove st nm)
  then show ?case by (simp add: objs_removeTask)
next
  case (r_tick st d)
  then show ?case by (simp add: tick_def)
next
  case (r_run st a d)
  from r_run.IH r_run.hyps(2) have "P (objs st ! a)" by (simp add: list_all_length)
  then have "P ((objs st ! a)\<lparr>lastRun := Some d, countRuns := countRuns (objs st ! a) + 1\<rparr>)"
    by (rule upd)
  with r_run.IH show ?case
    unfolding objs_execute list_all_iff using set_update_subset_insert by fastforce
qed

lemma reachable_registered:
  assumes "reachable st"
    and "\<And>task exp t. newTask task exp = Inr t \<Longrightarrow> P t"
    and "\<And>t d n. P t \<Longrightarrow> P (t\<lparr>lastRun := d, countRuns := n\<rparr>)"
    and "a \<in> set (tasks st)"
  shows "P (objs st ! a)"
proof -
  have "a < length (objs st)"
    using reachable_valid[OF assms(1)] assms(4) by (simp add: valid_def list_all_iff)
  moreover have "list_all P (objs st)" using assms(1,2,3) by (rule reachable_objs)
  ultimately show ?thesis by (simp add: list_all_length)
qed

lemma parse_field_ok:
  assumes "parseTimeExpression te mn mx = Inr (Some xs)"
  shows "field_ok mn mx xs"
  using parseTimeExpression_strict[OF assms] parseTimeExpression_in_range[OF assms]
  by (simp add: field_ok_def list_all_iff)

lemma newTask_task_ok:
  assumes "newTask task exp = Inr t"
  shows "task_ok t"
proof (rule newTask_success[OF assms])
  fix m h dd mo w
  assume p: "parseTimeExpression (exp ! 0) 0 59 = Inr (Some m)"
    "parseTimeExpression (exp ! 1) 0 23 = Inr (Some h)"
    "parseTimeExpression (exp ! 2) 1 31 = Inr (Some dd)"
    "parseTimeExpression (exp ! 3) 1 12 = Inr (Some mo)"
    "parseTimeExpression (exp ! 4) 0 6 = Inr (Some w)"
    and y: "year_field exp = Inr (year t)"
    and f: "min_f t = m" "hour t = h" "day t = dd" "month t = mo" "weekday t = w"
  have yr: "case year t of None \<Rightarrow> True | Some ys \<Rightarrow> field_ok 2020 2099 ys \<and> ys \<noteq> []"
  proof (cases "year t")
    case None
    then show ?thesis by simp
  next
    case (Some ys)
    with year_field_cases[OF y] have "parseTimeExpression (exp ! 5) 2020 2099 = Inr (Some ys)"
      by (auto split: if_splits)
    then have "field_ok 2020 2099 ys" "ys \<noteq> []"
      using parse_field_ok parseTimeExpression_nonempty[of 2020 2099] by auto
    with Some show ?thesis by simp
  qed
  show "task_ok t"
    unfolding task_ok_def f using p[THEN parse_field_ok] yr by simp
qed

lemma newTask_fields_nonempty:
  assumes "newTask task exp = Inr t"
  shows "fields_nonempty t"
proof (rule newTask_success[OF assms])
  fix m h dd mo w
  assume p: "parseTimeExpression (exp ! 0) 0 59 = Inr (Some m)"
    "parseTimeExpression (exp ! 1) 0 23 = Inr (Some h)"
    "parseTimeExpression (exp ! 2) 1 31 = Inr (Some dd)"
    "parseTimeExpression (exp ! 3) 1 12 = Inr (Some mo)"
    "parseTimeExpression (exp ! 4) 0 6 = Inr (Some w)"
    and f: "min_f t = m" "hour t = h" "day t = dd" "month t = mo" "weekday t = w"
  have "m \<noteq> []" "h \<noteq> []" "dd \<noteq> []" "mo \<noteq> []" "w \<noteq> []"
    using p by (auto dest: parseTimeExpression_nonempty[rotated])
  then show "fields_nonempty t" by (simp add: fields_nonempty_def f)
qed

lemma task_ok_update: "task_ok t \<Longrightarrow> task_ok (t\<lparr>lastRun := d, countRuns := n\<rparr>)"
  by (simp add: task_ok_def)

lemma fields_nonempty_update:
  "fields_nonempty t \<Longrightarrow> fields_nonempty (t\<lparr>lastRun := d, countRuns := n\<rparr>)"
  by (simp add: fields_nonempty_def)

text \<open>An execution counts the run and records its time whatever the callback does; a
  callback that throws leaves the registry as it is.\<close>

lemma execute_countRuns:
  assumes "a < length (objs st)"
  shows "countRuns (objs (execute d a st) ! a) = countRuns (objs st ! a) + 1
         \<and> lastRun (objs (execute d a st) ! a) = Some d"
  using assms by (simp add: objs_execute)

lemma execute_Throws:
  assumes "callBack (objs st ! a) = Throws"
  shows "tasks (execute d a st) = tasks st"
  using assms by (simp add: execute_def Let_def)

section \<open>Facts about the membership test\<close>

lemma existsInArray_small: "length arr < 10 \<Longrightarrow> existsInArray arr v = (v \<in> set arr)"
  by (simp add: existsInArray_def)

text \<open>From ten elements on, the guard in front of the binary search compares the wrong
  way round: it lets a value through only if it is at most the first and at least the
  last element, which no value is in a strictly ascending array.\<close>

lemma existsInArray_large:
  assumes "sorted_wrt (<) arr" and "10 \<le> length arr"
  shows "existsInArray arr v = False"
proof -
  have "arr ! 0 < arr ! (length arr - 1)"
    using assms sorted_wrt_nth_less[of "(<)" arr 0 "length arr - 1"] by simp
  then have "arr ! 0 < v \<or> arr ! (length arr - 1) > v" by linarith
  then show ?thesis using assms(2) by (simp add: existsInArray_def)
qed

text \<open>The binary search loop itself is right: started on the whole of a sorted array
  it decides membership.\<close>

lemma search_loop_correct:
  "sorted arr \<Longrightarrow> 0 \<le> lo \<Longrightarrow> hi < int (length arr) \<Longrightarrow>
   search_loop arr v lo hi = (\<exists>i. lo \<le> i \<and> i \<le> hi \<and> arr ! nat i = v)"
proof (induction arr v lo hi rule: search_loop.induct)
  case (1 arr v lo hi)
  note srt = "1.prems"(1) and lo0 = "1.prems"(2) and hil = "1.prems"(3)
  show ?case
  proof (cases "lo \<le> hi")
    case False
    then have "search_loop arr v lo hi = False" by (subst search_loop.simps) simp
    moreover have "\<not> (\<exists>i. lo \<le> i \<and> i \<le> hi \<and> arr ! nat i = v)" using False by auto
    ultimately show ?thesis by simp
  next
    case True
    define mid where "mid = (lo + hi) div 2"
    define a where "a = arr ! nat mid"
    have mid: "lo \<le> mid" "mid \<le> hi" using True by (auto simp: mid_def)
    then have inr: "0 \<le> mid" "mid < int (length arr)" using lo0 hil by auto
    then have at: "at arr mid = Some a" by (simp add: at_def a_def)
    have unf: "search_loop arr v lo hi =
      (if v - a < 0 then search_loop arr v lo (mid - 1)
       else if v - a > 0 then search_loop arr v (mid + 1) hi
       else True)"
      using True at unfolding mid_def
      by (subst search_loop.simps) (simp add: Let_def)
    consider (lt) "v < a" | (gt) "v > a" | (eq) "v = a" by linarith
    then show ?thesis
    proof cases
      case lt
      then have neg: "v - a < 0" by simp
      have "mid - 1 < int (length arr)" using inr by simp
      from "1.IH"(1)[OF True mid_def at refl neg srt lo0 this]
      have ih: "search_loop arr v lo (mid - 1)
                = (\<exists>i. lo \<le> i \<and> i \<le> mid - 1 \<and> arr ! nat i = v)" .
      have no: "arr ! nat i \<noteq> v" if "mid \<le> i" "i \<le> hi" for i
      proof -
        have "nat mid \<le> nat i" "nat i < length arr" using that inr hil by auto
        with srt have "arr ! nat mid \<le> arr ! nat i" by (rule sorted_nth_mono)
        then show ?thesis using lt by (simp add: a_def)
      qed
      have "(\<exists>i. lo \<le> i \<and> i \<le> mid - 1 \<and> arr ! nat i = v)
            = (\<exists>i. lo \<le> i \<and> i \<le> hi \<and> arr ! nat i = v)"
      proof
        assume "\<exists>i. lo \<le> i \<and> i \<le> mid - 1 \<and> arr ! nat i = v"
        then obtain i where "lo \<le> i" "i \<le> mid - 1" "arr ! nat i = v" by blast
        moreover from this mid have "i \<le> hi" by linarith
        ultimately show "\<exists>i. lo \<le> i \<and> i \<le> hi \<and> arr ! nat i = v" by blast
      next
        assume "\<exists>i. lo \<le> i \<and> i \<le> hi \<and> arr ! nat i = v"
        then obtain i where i: "lo \<le> i" "i \<le> hi" "arr ! nat i = v" by blast
        with no have "\<not> mid \<le> i" by blast
        then have "i \<le> mid - 1" by linarith
        with i show "\<exists>i. lo \<le> i \<and> i \<le> mid - 1 \<and> arr ! nat i = v" by blast
      qed
      with ih unf neg show ?thesis by simp
    next
      case gt
      then have pos: "\<not> v - a < 0" "v - a > 0" by simp_all
      have "0 \<le> mid + 1" using inr by simp
      from "1.IH"(2)[OF True mid_def at refl pos srt this hil]
      have ih: "search_loop arr v (mid + 1) hi
                = (\<exists>i. mid + 1 \<le> i \<and> i \<le> hi \<and> arr ! nat i = v)" .
      have no: "arr ! nat i \<noteq> v" if "lo \<le> i" "i \<le> mid" for i
      proof -
        have "nat i \<le> nat mid" "nat mid < length arr" using that inr by auto
        with srt have "arr ! nat i \<le> arr ! nat mid" by (rule sorted_nth_mono)
        then show ?thesis using gt by (simp add: a_def)
      qed
      have "(\<exists>i. mid + 1 \<le> i \<and> i \<le> hi \<and> arr ! nat i = v)
            = (\<exists>i. lo \<le> i \<and> i \<le> hi \<and> arr ! nat i = v)"
      proof
        assume "\<exists>i. mid + 1 \<le> i \<and> i \<le> hi \<and> arr ! nat i = v"
        then obtain i where "mid + 1 \<le> i" "i \<le> hi" "arr ! nat i = v" by blast
        moreover from this mid have "lo \<le> i" by linarith
        ultimately show "\<exists>i. lo \<le> i \<and> i \<le> hi \<and> arr ! nat i = v" by blast
      next
        assume "\<exists>i. lo \<le> i \<and> i \<le> hi \<and> arr ! nat i = v"
        then obtain i where i: "lo \<le> i" "i \<le> hi" "arr ! nat i = v" by blast
        with no have "\<not> i \<le> mid" by blast
        then have "mid + 1 \<le> i" by linarith
        with i show "\<exists>i. mid + 1 \<le> i \<and> i \<le> hi \<and> arr ! nat i = v" by blast
      qed
      with ih unf pos show ?thesis by simp
    next
      case eq
      then have "search_loop arr v lo hi = True" using unf by simp
      moreover have "lo \<le> mid \<and> mid \<le> hi \<and> arr ! nat mid = v"
        using mid eq by (simp add: a_def)
      then have "\<exists>i. lo \<le> i \<and> i \<le> hi \<and> arr ! nat i = v" by blast
      ultimately show ?thesis by simp
    qed
  qed
qed

lemma search_loop_member:
  assumes "sorted arr"
  shows "search_loop arr v 0 (int (length arr) - 1) = (v \<in> set arr)"
proof -
  have "search_loop arr v 0 (int (length arr) - 1)
        = (\<exists>i. 0 \<le> i \<and> i \<le> int (length arr) - 1 \<and> arr ! nat i = v)"
    using assms by (intro search_loop_correct) auto
  also have "\<dots> = (\<exists>n < length arr. arr ! n = v)"
  proof
    assume "\<exists>i. 0 \<le> i \<and> i \<le> int (length arr) - 1 \<and> arr ! nat i = v"
    then obtain i where "0 \<le> i" "i \<le> int (length arr) - 1" "arr ! nat i = v" by blast
    then have "nat i < length arr \<and> arr ! nat i = v" by auto
    then show "\<exists>n < length arr. arr ! n = v" by blast
  next
    assume "\<exists>n < length arr. arr ! n = v"
    then obtain n where "n < length arr" "arr ! n = v" by blast
    then have "0 \<le> int n \<and> int n \<le> int (length arr) - 1 \<and> arr ! nat (int n) = v" by auto
    then show "\<exists>i. 0 \<le> i \<and> i \<le> int (length arr) - 1 \<and> arr ! nat i = v" by blast
  qed
  also have "\<dots> = (v \<in> set arr)" by (auto simp: in_set_conv_nth)
  finally show ?thesis .
qed

section \<open>The membership test\<close>

text \<open>
  Claim C1: for an ascending, duplicate-free array, \<open>existsInArray\<close> is true exactly for
  the elements of the array, below the threshold of ten elements and from it on.
  The code at the ten-element array 0, \<dots>, 9 and the value 5, which is an element:
  the answer is false.
\<close>

theorem existsInArray_ten_elements:
  "existsInArray [0, 1, 2, 3, 4, 5, 6, 7, 8, 9] 5 = False"
  by code_simp

section \<open>Matching at a tick\<close>

text \<open>
  Claim C2: the task compiled from \<open>0,15,30,45 0-6 * * 1-4\<close> matches a snapshot with
  minute 0, hour 3, weekday 2 and any day and month.
  The code at the snapshot minute 0, hour 3, day 18, month 6, weekday 2, year 2024:
  the expression compiles, and the match predicate is false (the day set has 31 and the
  month set 12 elements, and the membership test is false from ten elements on).
\<close>

theorem quarters_task_snapshot:
  "(case newTask quarters_task (fields_of (task_expression quarters_task)) of
      Inl e \<Rightarrow> None
    | Inr t \<Rightarrow> Some (runTask t tuesday_three)) = Some False"
  by code_simp

text \<open>The same task matches no snapshot at all.\<close>

lemma quarters_task_never_matches:
  "(case newTask quarters_task (fields_of (task_expression quarters_task)) of
      Inl e \<Rightarrow> None
    | Inr t \<Rightarrow> Some (runTask t now)) = Some False"
proof -
  have "\<not> isl (newTask quarters_task (fields_of (task_expression quarters_task)))"
    by code_simp
  then obtain t where t: "newTask quarters_task (fields_of (task_expression quarters_task)) = Inr t"
    by (cases "newTask quarters_task (fields_of (task_expression quarters_task))") auto
  have "case newTask quarters_task (fields_of (task_expression quarters_task)) of
          Inl e \<Rightarrow> False | Inr t \<Rightarrow> length (day t) = 31"
    by code_simp
  then have len: "length (day t) = 31" by (simp add: t)
  have "sorted_wrt (<) (day t)"
    using newTask_task_ok[OF t] by (simp add: task_ok_def field_ok_def)
  then have "existsInArray (day t) (now_day now) = False"
    using len by (intro existsInArray_large) simp_all
  then show ?thesis by (simp add: t runTask_def)
qed

text \<open>
  Claim C3: the minute used for matching is the current minute, or the current minute
  plus one when minute plus second exceeds 50.
  The code at 03:30:00: the minute used for matching is 0, not 30.
\<close>

theorem now_min_half_past_three: "now_min (now_of half_past_three) = 0"
  by (simp add: now_of_def half_past_three_def)

lemma now_min_zero_or_one: "now_min (now_of d) = 0 \<or> now_min (now_of d) = 1"
  by (simp add: now_of_def)

section \<open>Dispatch\<close>

text \<open>
  Claim C4: a task whose callback always fails still has \<open>countRuns\<close> incremented at
  each execution and is removed when \<open>countRuns\<close> reaches \<open>maxRuns\<close>.
  The code for a task with \<open>maxRuns = 1\<close> whose callback throws, registered and then
  matched by the tick of Sunday 1 January 2023, 00:00:00: after the execution the task
  has \<open>countRuns = 1\<close> and is still listed.
\<close>

theorem throwing_task_stays_listed:
  "(case addTask sunday_midnight throwing_task init of
      Inl e \<Rightarrow> []
    | Inr st \<Rightarrow> getTasks (tick_and_run sunday_midnight st))
   = [\<lparr>name = ''job'', expression = ''0 0 1 1 0'', comment = '''',
       lastRun = Some sunday_midnight, countRuns = 1, maxRuns = Some 1\<rparr>]"
  by code_simp

text \<open>The same task with a callback that returns a rejected promise is removed.\<close>

lemma rejecting_task_removed:
  "(case addTask sunday_midnight rejecting_task init of
      Inl e \<Rightarrow> None
    | Inr st \<Rightarrow> Some (getTasks (tick_and_run sunday_midnight st))) = Some []"
  by code_simp

section \<open>Errors of addTask\<close>

text \<open>
  Claim C5: when a field fails to parse, \<open>addTask\<close> raises an error whose message
  holds the raw expression and the task name.
  The code for the task \<open>job\<close> with expression \<open>61 * * * *\<close>: the error is the parser's
  own, with the field text only; the message is rewritten only when it is exactly
  \<open>Invalid expression\<close>, which is the message of the field-count error.
\<close>

theorem addTask_bad_minute_error:
  "addTask sunday_midnight bad_minute_task init
   = Inl \<lparr>err_name = ''Error'', message = ''Invalid expression: 61''\<rparr>"
  by code_simp

section \<open>Ranges\<close>



section \<open>Invariants of compiled tasks\<close>

text \<open>
  Claim C7: a successful \<open>parseTimeExpression\<close> returns a strictly ascending list
  (sorted, no duplicates) of values within \<open>[min, max]\<close>; hence every field set of a
  compiled task, and of every task in the registry of a reachable state, is strictly
  ascending and within its domain, and the year set, when not \<open>null\<close>, is non-empty.
\<close>

theorem compiled_sets_invariant:
  "(\<forall>r. parseTimeExpression te mn mx = Inr r \<longrightarrow>
       (\<exists>xs. r = Some xs \<and> sorted_wrt (<) xs \<and> (\<forall>x\<in>set xs. mn \<le> x \<and> x \<le> mx)))
   \<and> (\<forall>t. newTask task exp = Inr t \<longrightarrow> task_ok t)
   \<and> (reachable st \<longrightarrow> (\<forall>a\<in>set (tasks st). task_ok (objs st ! a)))"
proof (intro conjI allI impI ballI)
  fix r
  assume p: "parseTimeExpression te mn mx = Inr r"
  then obtain xs where r: "r = Some xs" using parse_Inr_Some by blast
  with p have "sorted_wrt (<) xs" "\<forall>x\<in>set xs. mn \<le> x \<and> x \<le> mx"
    using parseTimeExpression_strict parseTimeExpression_in_range by blast+
  with r show "\<exists>xs. r = Some xs \<and> sorted_wrt (<) xs \<and> (\<forall>x\<in>set xs. mn \<le> x \<and> x \<le> mx)"
    by blast
next
  fix t
  assume "newTask task exp = Inr t"
  then show "task_ok t" by (rule newTask_task_ok)
next
  fix a
  assume "reachable st" "a \<in> set (tasks st)"
  then show "task_ok (objs st ! a)"
    using reachable_registered[of st task_ok a] newTask_task_ok task_ok_update by blast
qed

theorem compiled_sets_invariant_witness:
  "parseTimeExpression ''3,2-4,1,3'' 1 7 = Inr (Some [1, 2, 3, 4])
   \<and> sorted_wrt (<) [1, 2, 3, 4 :: int]
   \<and> list_all (\<lambda>x. 1 \<le> x \<and> x \<le> 7) [1, 2, 3, 4 :: int]
   \<and> (\<exists>st. addTask sunday_midnight year_task init = Inr st \<and> reachable st
          \<and> tasks st = [0] \<and> task_ok (objs st ! 0) \<and> year (objs st ! 0) = Some [2025])"
proof -
  have p: "parseTimeExpression ''3,2-4,1,3'' 1 7 = Inr (Some [1, 2, 3, 4])" by code_simp
  have "\<not> isl (addTask sunday_midnight year_task init)" by code_simp
  then obtain st where st: "addTask sunday_midnight year_task init = Inr st"
    by (cases "addTask sunday_midnight year_task init") auto
  have re: "reachable st" using r_init st by (rule r_add)
  have ts: "tasks st = [0]"
    by (rule addTask_Inr[OF st]) (simp add: init_def)
  have "case addTask sunday_midnight year_task init of
          Inl e \<Rightarrow> False | Inr s \<Rightarrow> year (objs s ! 0) = Some [2025]"
    by code_simp
  then have yr: "year (objs st ! 0) = Some [2025]" by (simp add: st)
  note inv = compiled_sets_invariant[of "''3,2-4,1,3''" 1 7 year_task "[]" st]
  from inv p have "sorted_wrt (<) [1, 2, 3, 4 :: int]"
    "list_all (\<lambda>x. 1 \<le> x \<and> x \<le> 7) [1, 2, 3, 4 :: int]"
    by (auto simp: list_all_iff)
  moreover from inv re ts have "task_ok (objs st ! 0)" by simp
  ultimately show ?thesis using p st re ts yr by blast
qed

section \<open>Field count and year\<close>

text \<open>
  Claim C8: \<open>addTask\<close> fails when the expression, with its runs of spaces collapsed and
  trimmed, does not split into 5 or 6 fields (the error is the rewritten one, with the
  expression and the task name), and it fails as well when the count is taken after
  collapsing runs of any white space; with 6 fields the sixth is parsed as the year in
  2020..2099, so that compilation fails when the year field fails to parse, as \<open>2019\<close>
  and \<open>2100\<close> do; with 5 fields \<open>year\<close> is \<open>null\<close>.
\<close>

theorem addTask_field_count_and_year:
  "(length (fields_of (task_expression task)) < 5 \<or> 6 < length (fields_of (task_expression task))
      \<longrightarrow> addTask d task st = Inl (count_error task))
   \<and> (length (spec_fields (task_expression task)) < 5
        \<or> 6 < length (spec_fields (task_expression task))
      \<longrightarrow> isl (addTask d task st))
   \<and> (length (fields_of (task_expression task)) = 6 \<longrightarrow>
        (\<forall>st'. addTask d task st = Inr st' \<longrightarrow>
           parseTimeExpression (fields_of (task_expression task) ! 5) 2020 2099
           = Inr (year (last (objs st')))))
   \<and> (length (fields_of (task_expression task)) = 6 \<longrightarrow>
        isl (parseTimeExpression (fields_of (task_expression task) ! 5) 2020 2099) \<longrightarrow>
        isl (addTask d task st))
   \<and> parseTimeExpression ''2019'' 2020 2099 = Inl (parse_error ''2019'')
   \<and> parseTimeExpression ''2100'' 2020 2099 = Inl (parse_error ''2100'')
   \<and> (length (fields_of (task_expression task)) = 5 \<longrightarrow>
        (\<forall>st'. addTask d task st = Inr st' \<longrightarrow> year (last (objs st')) = None))"
proof -
  let ?exp = "fields_of (task_expression task)"
  have c1: "length ?exp < 5 \<or> 6 < length ?exp \<longrightarrow> addTask d task st = Inl (count_error task)"
    using addTask_count[of task d st] by blast
  have c1': "length (spec_fields (task_expression task)) < 5
        \<or> 6 < length (spec_fields (task_expression task))
      \<longrightarrow> isl (addTask d task st)"
    using addTask_spec_fields by blast
  have c2: "length ?exp = 6 \<longrightarrow> (\<forall>st'. addTask d task st = Inr st' \<longrightarrow>
           parseTimeExpression (?exp ! 5) 2020 2099 = Inr (year (last (objs st'))))"
    using year_field_cases[OF addTask_year] by fastforce
  have c3: "length ?exp = 6 \<longrightarrow> isl (parseTimeExpression (?exp ! 5) 2020 2099) \<longrightarrow>
        isl (addTask d task st)"
    using addTask_year_fails by blast
  have c4: "parseTimeExpression ''2019'' 2020 2099 = Inl (parse_error ''2019'')"
    by code_simp
  have c5: "parseTimeExpression ''2100'' 2020 2099 = Inl (parse_error ''2100'')"
    by code_simp
  have c6: "length ?exp = 5 \<longrightarrow>
        (\<forall>st'. addTask d task st = Inr st' \<longrightarrow> year (last (objs st')) = None)"
    using year_field_cases[OF addTask_year] by fastforce
  from c1 c1' c2 c3 c4 c5 c6 show ?thesis by (intro conjI)
qed

theorem addTask_field_count_and_year_witness:
  "addTask sunday_midnight four_fields_task init = Inl (count_error four_fields_task)
   \<and> length (spec_fields (task_expression four_fields_task)) = 4
   \<and> (\<exists>st'. addTask sunday_midnight year_task init = Inr st'
          \<and> year (last (objs st')) = Some [2025])
   \<and> isl (addTask sunday_midnight early_year_task init)
   \<and> (\<exists>st'. addTask sunday_midnight throwing_task init = Inr st'
          \<and> year (last (objs st')) = None)"
proof -
  have l4: "length (fields_of (task_expression four_fields_task)) = 4" by code_simp
  have w1: "addTask sunday_midnight four_fields_task init = Inl (count_error four_fields_task)"
    using addTask_field_count_and_year[of four_fields_task sunday_midnight init] l4 by simp
  have w1': "length (spec_fields (task_expression four_fields_task)) = 4" by code_simp
  have l6: "length (fields_of (task_expression year_task)) = 6" by code_simp
  have y6: "parseTimeExpression (fields_of (task_expression year_task) ! 5) 2020 2099
            = Inr (Some [2025])" by code_simp
  have "\<not> isl (addTask sunday_midnight year_task init)" by code_simp
  then obtain s6 where s6: "addTask sunday_midnight year_task init = Inr s6"
    by (cases "addTask sunday_midnight year_task init") auto
  have "year (last (objs s6)) = Some [2025]"
    using addTask_field_count_and_year[of year_task sunday_midnight init] l6 y6 s6 by simp
  with s6 have w2: "\<exists>st'. addTask sunday_midnight year_task init = Inr st'
          \<and> year (last (objs st')) = Some [2025]" by blast
  have e6: "length (fields_of (task_expression early_year_task)) = 6" by code_simp
  have ey: "isl (parseTimeExpression (fields_of (task_expression early_year_task) ! 5) 2020 2099)"
    by code_simp
  have w3: "isl (addTask sunday_midnight early_year_task init)"
    using addTask_field_count_and_year[of early_year_task sunday_midnight init] e6 ey by blast
  have l5: "length (fields_of (task_expression throwing_task)) = 5" by code_simp
  have "\<not> isl (addTask sunday_midnight throwing_task init)" by code_simp
  then obtain s5 where s5: "addTask sunday_midnight throwing_task init = Inr s5"
    by (cases "addTask sunday_midnight throwing_task init") auto
  have "year (last (objs s5)) = None"
    using addTask_field_count_and_year[of throwing_task sunday_midnight init] l5 s5 by simp
  with s5 have w4: "\<exists>st'. addTask sunday_midnight throwing_task init = Inr st'
          \<and> year (last (objs st')) = None" by blast
  from w1 w1' w2 w3 w4 show ?thesis by (intro conjI)
qed

section \<open>Listing the registry\<close>

text \<open>
  Claim C9: after a sequence of successful \<open>addTask\<close> calls on the empty registry,
  \<open>getTasks\<close> returns one entry per task, in registration order; the entry holds the
  name, the expression exactly as it was passed, the comment, \<open>lastRun\<close>, \<open>countRuns\<close>
  and \<open>maxRuns\<close>. The type \<open>TaskInfo\<close> of the entries has no field for the callback
  or for the compiled sets.
\<close>

theorem getTasks_lists_added_tasks:
  assumes "addTasks calls init = Inr st"
  shows "getTasks st = map (\<lambda>(d, task). info_of task) calls"
  using getTasks_addTasks[OF valid_init assms] by (simp add: getTasks_def init_def)

theorem getTasks_lists_added_tasks_witness:
  "\<exists>st. addTasks [(sunday_midnight, spaced_task), (half_past_three, throwing_task)] init = Inr st
     \<and> getTasks st =
       [\<lparr>name = ''spaced'', expression = ''  0,15,30,45   0-6 1 1  1-4 '', comment = ''night'',
         lastRun = None, countRuns = 0, maxRuns = Some 3\<rparr>,
        \<lparr>name = ''job'', expression = ''0 0 1 1 0'', comment = '''',
         lastRun = None, countRuns = 0, maxRuns = Some 1\<rparr>]"
proof -
  let ?calls = "[(sunday_midnight, spaced_task), (half_past_three, throwing_task)]"
  have "\<not> isl (addTasks ?calls init)" by code_simp
  then obtain st where st: "addTasks ?calls init = Inr st"
    by (cases "addTasks ?calls init") auto
  have "getTasks st = map (\<lambda>(d, task). info_of task) ?calls"
    using st by (rule getTasks_lists_added_tasks)
  then have "getTasks st =
       [\<lparr>name = ''spaced'', expression = ''  0,15,30,45   0-6 1 1  1-4 '', comment = ''night'',
         lastRun = None, countRuns = 0, maxRuns = Some 3\<rparr>,
        \<lparr>name = ''job'', expression = ''0 0 1 1 0'', comment = '''',
         lastRun = None, countRuns = 0, maxRuns = Some 1\<rparr>]"
    by (simp add: info_of_def spaced_task_def throwing_task_def nullish_def)
  with st show ?thesis by blast
qed

section \<open>Non-empty field sets\<close>

text \<open>The wildcard over an empty domain is the one successful parse with an empty
  result. No call of the program asks for it: \<open>parseTimeExpression\<close> is called with
  the six pairs of bounds of \<open>addTask\<close>, and by itself with the bounds it was given.\<close>

lemma parse_star_empty_domain: "parseTimeExpression ''*'' 1 0 = Inr (Some [])"
  by code_simp

text \<open>
  Claim C10: \<open>parseTimeExpression\<close> never returns \<open>null\<close> or an empty list: it throws or
  returns a non-empty list, for every text with the bounds \<open>min \<le> max\<close> that the calls of
  the program pass, and for every text but the wildcard with any bounds. So the five
  always-present field sets of a compiled task, and of every task in the registry of a
  reachable state, are non-empty, and the \<open>??\<close> fallbacks of \<open>addTask\<close> are never taken.
\<close>

theorem parse_result_nonempty:
  "(mn \<le> mx \<longrightarrow>
      (\<forall>r. parseTimeExpression te mn mx = Inr r \<longrightarrow> (\<exists>xs. r = Some xs \<and> xs \<noteq> [])))
   \<and> (te \<noteq> ''*'' \<longrightarrow>
      (\<forall>r. parseTimeExpression te mn mx = Inr r \<longrightarrow> (\<exists>xs. r = Some xs \<and> xs \<noteq> [])))
   \<and> parseTimeExpression te mn mx \<noteq> Inr None
   \<and> (\<forall>t. newTask task exp = Inr t \<longrightarrow> fields_nonempty t)
   \<and> (reachable st \<longrightarrow> (\<forall>a\<in>set (tasks st). fields_nonempty (objs st ! a)))"
proof (intro conjI allI impI ballI)
  fix r
  assume le: "mn \<le> mx" and p: "parseTimeExpression te mn mx = Inr r"
  then obtain xs where r: "r = Some xs" using parse_Inr_Some by blast
  with p le have "xs \<noteq> []" using parseTimeExpression_nonempty by blast
  with r show "\<exists>xs. r = Some xs \<and> xs \<noteq> []" by blast
next
  fix r
  assume ns: "te \<noteq> ''*''" and p: "parseTimeExpression te mn mx = Inr r"
  then obtain xs where r: "r = Some xs" using parse_Inr_Some by blast
  with p ns have "xs \<noteq> []" using parseTimeExpression_nonempty_text by blast
  with r show "\<exists>xs. r = Some xs \<and> xs \<noteq> []" by blast
next
  show "parseTimeExpression te mn mx \<noteq> Inr None" by (rule parseTimeExpression_not_null)
next
  fix t
  assume "newTask task exp = Inr t"
  then show "fields_nonempty t" by (rule newTask_fields_nonempty)
next
  fix a
  assume "reachable st" "a \<in> set (tasks st)"
  then show "fields_nonempty (objs st ! a)"
    using reachable_registered[of st fields_nonempty a] newTask_fields_nonempty
      fields_nonempty_update by blast
qed

theorem parse_result_nonempty_witness:
  "(1::int) \<le> 7
   \<and> ''1,3,5-7'' \<noteq> ''*''
   \<and> parseTimeExpression ''1,3,5-7'' 1 7 = Inr (Some [1, 3, 5, 6, 7])
   \<and> [1, 3, 5, 6, 7 :: int] \<noteq> []
   \<and> (\<exists>st. addTask sunday_midnight quarters_task init = Inr st \<and> reachable st
          \<and> tasks st = [0] \<and> fields_nonempty (objs st ! 0))"
proof -
  have p: "parseTimeExpression ''1,3,5-7'' 1 7 = Inr (Some [1, 3, 5, 6, 7])" by code_simp
  have "\<not> isl (addTask sunday_midnight quarters_task init)" by code_simp
  then obtain st where st: "addTask sunday_midnight quarters_task init = Inr st"
    by (cases "addTask sunday_midnight quarters_task init") auto
  have re: "reachable st" using r_init st by (rule r_add)
  have ts: "tasks st = [0]"
    by (rule addTask_Inr[OF st]) (simp add: init_def)
  note ne = parse_result_nonempty[of 1 7 "''1,3,5-7''" quarters_task "[]" st]
  from ne p have "[1, 3, 5, 6, 7 :: int] \<noteq> []" by simp
  moreover from ne re ts have "fields_nonempty (objs st ! 0)" by simp
  ultimately show ?thesis using p st re ts by simp
qed

end
